theory Spec2Isabelle
  imports Complex_Main "HOL-Library.Sublist" "HOL-Library.AList" "HOL-Library.Multiset"
begin

section \<open>Data model (internal/llm/types.go, internal/config/config.go)\<close>

text \<open>
  Go strings are byte sequences; they are modelled as \<open>string\<close> (a list of 8-bit
  characters).  Go's \<open>int\<close> is modelled as \<open>int\<close>; the only arithmetic on it is the
  token estimate and the tool-call counter, both far below \<open>2^63\<close>.
\<close>

record tool_call =
  tc_ID :: string
  tc_Name :: string
  tc_Arguments :: string

record message =
  Role :: string
  Content :: string
  ToolCalls :: "tool_call list"
  ToolCallID :: string

record tool_definition =
  td_Name :: string
  td_Description :: string
  td_Parameters :: string

record llm_response =
  resp_Content :: string
  resp_ToolCalls :: "tool_call list"
  resp_InputTokens :: int
  resp_OutputTokens :: int
  resp_StopReason :: string

record chat_request =
  req_Model :: string
  req_Messages :: "message list"
  req_Tools :: "tool_definition list"
  req_MaxTokens :: int
  req_Temperature :: rat
  req_SystemPrompt :: string

record agent_config =
  SystemPrompt :: string
  MaxTokens :: int
  Temperature :: rat
  MaxToolCalls :: int
  ContextWindow :: int
  SummarizeAt :: int

text \<open>\<open>ErrorType\<close> is a Go \<open>int\<close> with seven named constants (\<open>iota\<close>).\<close>

type_synonym error_type = int

definition ErrorUnknown :: error_type where "ErrorUnknown = 0"
definition ErrorRateLimit :: error_type where "ErrorRateLimit = 1"
definition ErrorAuth :: error_type where "ErrorAuth = 2"
definition ErrorInvalidInput :: error_type where "ErrorInvalidInput = 3"
definition ErrorServerError :: error_type where "ErrorServerError = 4"
definition ErrorTimeout :: error_type where "ErrorTimeout = 5"
definition ErrorNetwork :: error_type where "ErrorNetwork = 6"

text \<open>
  Go error values: an \<open>*LLMError\<close> (type, message, wrapped cause), an error made by
  \<open>fmt.Errorf\<close> with \<open>%w\<close> (text before the cause, and the cause), or any other error,
  of which only the text matters.
\<close>

datatype go_error =
    LLMError error_type string "go_error option"
  | WrapError string go_error
  | OtherError string

text \<open>\<open>errors.As(err, &llmErr)\<close>: the first \<open>*LLMError\<close> on the \<open>Unwrap\<close> chain.\<close>

fun errors_As_LLMError :: "go_error \<Rightarrow> error_type option" where
  "errors_As_LLMError (LLMError t m c) = Some t"
| "errors_As_LLMError (WrapError s e) = errors_As_LLMError e"
| "errors_As_LLMError (OtherError s) = None"

section \<open>Fallback chain (FallbackProvider.Chat, isRetryable)\<close>

text \<open>
  A provider's \<open>Chat\<close> is a call into the outside world: it takes the request and the
  state of the world \<open>'w\<close> and returns an error or a response, and the world after the
  call.
\<close>

type_synonym 'w provider = "chat_request \<Rightarrow> 'w \<Rightarrow> (go_error + llm_response) \<times> 'w"

definition isRetryable :: "go_error \<Rightarrow> bool" where
  "isRetryable err =
     (case errors_As_LLMError err of
        None \<Rightarrow> True
      | Some t \<Rightarrow>
          if t = ErrorAuth \<or> t = ErrorInvalidInput then False
          else if t = ErrorRateLimit \<or> t = ErrorServerError \<or> t = ErrorTimeout \<or> t = ErrorNetwork
          then True
          else True)"

text \<open>
  The \<open>for _, p := range f.providers\<close> loop with its variable \<open>lastErr\<close> (\<open>None\<close> is
  Go's \<open>nil\<close>).  The result \<open>Inl None\<close> is the pair \<open>(nil, nil)\<close> that the code
  returns for an empty provider list.
\<close>

fun Chat_loop :: "'w provider list \<Rightarrow> go_error option \<Rightarrow> chat_request \<Rightarrow> 'w
    \<Rightarrow> (go_error option + llm_response) \<times> 'w" where
  "Chat_loop [] lastErr req w = (Inl lastErr, w)"
| "Chat_loop (p # ps) lastErr req w =
     (case p req w of
        (Inr resp, w') \<Rightarrow> (Inr resp, w')
      | (Inl err, w') \<Rightarrow>
          if \<not> isRetryable err then (Inl (Some err), w')
          else Chat_loop ps (Some err) req w')"

definition FallbackProvider_Chat :: "'w provider list \<Rightarrow> chat_request \<Rightarrow> 'w
    \<Rightarrow> (go_error option + llm_response) \<times> 'w" where
  "FallbackProvider_Chat providers req w = Chat_loop providers None req w"

text \<open>
  The fallback rule in the words of the specification, for comparison with the loop above:
  try the first provider; a response ends the search; an error classified \<open>Auth\<close> or
  \<open>InvalidInput\<close> ends it with that error; any other error moves on to the next
  provider, and is the result when there is none.
\<close>

definition terminal_error :: "go_error \<Rightarrow> bool" where
  "terminal_error err =
     (errors_As_LLMError err = Some ErrorAuth \<or> errors_As_LLMError err = Some ErrorInvalidInput)"

fun fallback_spec :: "'w provider list \<Rightarrow> chat_request \<Rightarrow> 'w
    \<Rightarrow> (go_error option + llm_response) \<times> 'w" where
  "fallback_spec [] req w = (Inl None, w)"
| "fallback_spec (p # ps) req w =
     (case p req w of
        (Inr resp, w') \<Rightarrow> (Inr resp, w')
      | (Inl err, w') \<Rightarrow>
          if terminal_error err \<or> ps = [] then (Inl (Some err), w')
          else fallback_spec ps req w')"

section \<open>Conversation store (internal/memory/sqlite.go)\<close>

text \<open>
  The \<open>messages\<close> table is a list of rows in \<open>id\<close> order (\<open>AUTOINCREMENT\<close>), each a chat
  id and a message; the \<open>summaries\<close> table maps a chat id to its summary.  Database
  failures are outside the model: every statement succeeds.
\<close>

record memory =
  rows :: "(string \<times> message) list"
  summaries :: "string \<Rightarrow> string option"

definition SaveMessage :: "string \<Rightarrow> message \<Rightarrow> memory \<Rightarrow> memory" where
  "SaveMessage chatID msg m = m\<lparr>rows := rows m @ [(chatID, msg)]\<rparr>"

text \<open>\<open>ORDER BY id DESC LIMIT ?\<close>, then \<open>ORDER BY id ASC\<close>: the last \<open>limit\<close> rows of the chat.\<close>

definition GetHistory :: "string \<Rightarrow> nat \<Rightarrow> memory \<Rightarrow> message list" where
  "GetHistory chatID limit m =
     (let ms = map snd (filter (\<lambda>r. fst r = chatID) (rows m))
      in drop (length ms - limit) ms)"

definition SaveSummary :: "string \<Rightarrow> string \<Rightarrow> memory \<Rightarrow> memory" where
  "SaveSummary chatID summary m = m\<lparr>summaries := (summaries m)(chatID \<mapsto> summary)\<rparr>"

definition GetSummary :: "string \<Rightarrow> memory \<Rightarrow> string" where
  "GetSummary chatID m = (case summaries m chatID of None \<Rightarrow> [] | Some s \<Rightarrow> s)"

section \<open>Tools and registry (internal/tool)\<close>

record tool_result =
  Output :: string
  Error :: string
  IsError :: bool

text \<open>
  A tool's \<open>Execute\<close> returns a transport error (its \<open>Error()\<close> text) or a result, and
  changes the world.  The registry is Go's \<open>map[string]Tool\<close>, kept as an association
  list.
\<close>

record 'w tool =
  t_Description :: string
  t_Parameters :: string
  t_Execute :: "string \<Rightarrow> 'w \<Rightarrow> (string + tool_result) \<times> 'w"

type_synonym 'w registry = "(string \<times> 'w tool) list"

definition Registry_Get :: "'w registry \<Rightarrow> string \<Rightarrow> 'w tool option" where
  "Registry_Get r name = map_of r name"

definition Definitions :: "'w registry \<Rightarrow> tool_definition list" where
  "Definitions r =
     map (\<lambda>(n, t). \<lparr>td_Name = n, td_Description = t_Description t,
                    td_Parameters = t_Parameters t\<rparr>) r"

section \<open>Event bus\<close>

text \<open>
  \<open>Bus.Publish\<close> hands the event to the subscribers; the model records what the agent
  publishes, in order.
\<close>

record InboundMessage =
  ChannelName :: string
  SenderID :: string
  SenderName :: string
  in_ChatID :: string
  in_Text :: string

record OutboundMessage =
  out_ChatID :: string
  out_Text :: string
  ReplyTo :: string

datatype event =
    llm_request chat_request
  | llm_response_ev llm_response
  | tool_call_ev tool_call
  | tool_result_ev string string
  | inbound_message InboundMessage
  | outbound_message OutboundMessage
  | error_ev go_error

section \<open>Context manager (internal/agent/context.go)\<close>

record 'w contextManager =
  cm_provider :: "'w provider"
  cm_contextWindow :: int
  cm_summarizeAt :: int

definition newContextManager :: "'w provider \<Rightarrow> int \<Rightarrow> int \<Rightarrow> 'w contextManager" where
  "newContextManager p cw sa = \<lparr>cm_provider = p, cm_contextWindow = cw, cm_summarizeAt = sa\<rparr>"

definition estimateTokens :: "message list \<Rightarrow> int" where
  "estimateTokens messages =
     foldl (\<lambda>total m.
        foldl (\<lambda>total tc. total + int (length (tc_Arguments tc)) div 4)
              (total + int (length (Content m)) div 4) (ToolCalls m))
       0 messages"

definition shouldSummarize :: "'w contextManager \<Rightarrow> message list \<Rightarrow> bool" where
  "shouldSummarize cm messages = (estimateTokens messages > cm_summarizeAt cm)"

definition summary_text :: "message list \<Rightarrow> string" where
  "summary_text toSummarize =
     foldl (\<lambda>text m. text @ Role m @ '': '' @ Content m @ [CHR 0x0A]) [] toSummarize"

definition summaryReq :: "message list \<Rightarrow> chat_request" where
  "summaryReq toSummarize =
     \<lparr>req_Model = [],
      req_Messages = [\<lparr>Role = ''user'',
         Content = ''Summarize this conversation concisely, preserving key facts, decisions, and context:''
                   @ [CHR 0x0A, CHR 0x0A] @ summary_text toSummarize,
         ToolCalls = [], ToolCallID = []\<rparr>],
      req_Tools = [],
      req_MaxTokens = 1024,
      req_Temperature = 3 / 10,
      req_SystemPrompt = ''You are a conversation summarizer. Create a brief, factual summary.''\<rparr>"

text \<open>
  \<open>summarize\<close> returns the summary, the recent messages, an error (always \<open>nil\<close>, here
  \<open>None\<close>), and the world after the summarizer's provider call.
\<close>

definition summarize :: "'w contextManager \<Rightarrow> message list \<Rightarrow> 'w
    \<Rightarrow> (string \<times> message list \<times> go_error option) \<times> 'w" where
  "summarize cm messages w =
     (if length messages \<le> 4 then (([], messages, None), w)
      else
        let cutoff = length messages - 4;
            toSummarize = take cutoff messages;
            recent = drop cutoff messages
        in case cm_provider cm (summaryReq toSummarize) w of
             (Inl err, w') \<Rightarrow> (([], recent, None), w')
           | (Inr resp, w') \<Rightarrow> ((resp_Content resp, recent, None), w'))"

section \<open>Agent loop (processMessage)\<close>

text \<open>
  A channel's \<open>Send\<close> is a call into the world; the channel manager is Go's
  \<open>map[string]Channel\<close>, kept as an association list.
\<close>

type_synonym 'w channel = "OutboundMessage \<Rightarrow> 'w \<Rightarrow> go_error option \<times> 'w"

record 'w agent =
  cfg :: agent_config
  provider :: "'w provider"
  tools :: "'w registry"
  chanMgr :: "(string \<times> 'w channel) list"
  ctxManager :: "'w contextManager"

definition New :: "agent_config \<Rightarrow> 'w provider \<Rightarrow> 'w registry \<Rightarrow> (string \<times> 'w channel) list
    \<Rightarrow> 'w agent" where
  "New c p ts cm =
     \<lparr>cfg = c, provider = p, tools = ts, chanMgr = cm,
      ctxManager = newContextManager p (ContextWindow c) (SummarizeAt c)\<rparr>"

text \<open>
  The state a turn runs in: the world outside the agent (providers, tools and what they
  touch), the conversation store, and the events published so far.
\<close>

record 'w state =
  world :: 'w
  mem :: memory
  published :: "event list"

definition Publish :: "event \<Rightarrow> 'w state \<Rightarrow> 'w state" where
  "Publish e st = st\<lparr>published := published st @ [e]\<rparr>"

definition user_msg :: "string \<Rightarrow> message" where
  "user_msg text = \<lparr>Role = ''user'', Content = text, ToolCalls = [], ToolCallID = []\<rparr>"

definition assistant_msg :: "string \<Rightarrow> message" where
  "assistant_msg text = \<lparr>Role = ''assistant'', Content = text, ToolCalls = [], ToolCallID = []\<rparr>"

text \<open>Lines 49 to 58: the summarization step at the head of every loop iteration.\<close>

definition summarize_step :: "'w agent \<Rightarrow> string \<Rightarrow> message list \<Rightarrow> 'w state
    \<Rightarrow> message list \<times> 'w state" where
  "summarize_step a chatID messages st =
     (if shouldSummarize (ctxManager a) messages then
        (case summarize (ctxManager a) messages (world st) of
           ((newSummary, recent, err), w') \<Rightarrow>
             if err = None \<and> newSummary \<noteq> [] then
               ([user_msg (''[Conversation summary]: '' @ newSummary),
                 assistant_msg ''I understand the context. Continuing...''] @ recent,
                st\<lparr>world := w', mem := SaveSummary chatID newSummary (mem st)\<rparr>)
             else (messages, st\<lparr>world := w'\<rparr>))
      else (messages, st))"

text \<open>Lines 104 to 117: the result text of one tool call.\<close>

definition execute_call :: "'w registry \<Rightarrow> tool_call \<Rightarrow> 'w \<Rightarrow> string \<times> 'w" where
  "execute_call reg tc w =
     (case Registry_Get reg (tc_Name tc) of
        None \<Rightarrow> (''Error: tool '' @ [CHR 0x27] @ tc_Name tc @ [CHR 0x27] @ '' not found'', w)
      | Some t \<Rightarrow>
          (case t_Execute t (tc_Arguments tc) w of
             (Inl err, w') \<Rightarrow> (''Error executing tool: '' @ err, w')
           | (Inr res, w') \<Rightarrow>
               if IsError res then (''Error: '' @ Error res, w')
               else (Output res, w')))"

text \<open>Lines 101 to 128: the \<open>for _, tc := range resp.ToolCalls\<close> loop.\<close>

fun run_tool_calls :: "'w registry \<Rightarrow> tool_call list \<Rightarrow> message list \<Rightarrow> 'w state
    \<Rightarrow> message list \<times> 'w state" where
  "run_tool_calls reg [] messages st = (messages, st)"
| "run_tool_calls reg (tc # tcs) messages st =
     (let st1 = Publish (tool_call_ev tc) st in
      case execute_call reg tc (world st1) of
        (result, w') \<Rightarrow>
          let st2 = Publish (tool_result_ev (tc_ID tc) result) (st1\<lparr>world := w'\<rparr>);
              toolMsg = \<lparr>Role = ''tool'', Content = result, ToolCalls = [], ToolCallID = tc_ID tc\<rparr>
          in run_tool_calls reg tcs (messages @ [toolMsg]) st2)"

definition truncation_msg :: "string \<Rightarrow> string" where
  "truncation_msg partial =
     ''I've reached the maximum number of tool calls for this request. Here's what I have so far: ''
     @ partial"

text \<open>Lines 61 to 67: the request of one iteration.\<close>

definition chat_req :: "'w agent \<Rightarrow> message list \<Rightarrow> chat_request" where
  "chat_req a messages =
     \<lparr>req_Model = [], req_Messages = messages,
      req_Tools = Definitions (tools a),
      req_MaxTokens = MaxTokens (cfg a),
      req_Temperature = Temperature (cfg a),
      req_SystemPrompt = SystemPrompt (cfg a)\<rparr>"

text \<open>
  Lines 47 to 129: the \<open>for { ... }\<close> loop.  The result is the pair that
  \<open>processMessage\<close> returns (\<open>Inl\<close> the error, \<open>Inr\<close> the response text) and the state
  after the turn.  The loop ends: every iteration that goes round adds at least one to
  \<open>toolCallCount\<close>, which stays at most \<open>MaxToolCalls\<close>.
\<close>

function agent_loop :: "'w agent \<Rightarrow> string \<Rightarrow> message list \<Rightarrow> int \<Rightarrow> 'w state
    \<Rightarrow> (go_error + string) \<times> 'w state" where
  "agent_loop a chatID messages toolCallCount st =
     (case summarize_step a chatID messages st of
        (messages1, st1) \<Rightarrow>
          let req = chat_req a messages1;
              st2 = Publish (llm_request req) st1
          in case provider a req (world st2) of
               (Inl err, w') \<Rightarrow> (Inl (WrapError ''LLM error: '' err), st2\<lparr>world := w'\<rparr>)
             | (Inr resp, w') \<Rightarrow>
                 let st3 = Publish (llm_response_ev resp) (st2\<lparr>world := w'\<rparr>) in
                 if length (resp_ToolCalls resp) = 0 then
                   (Inr (resp_Content resp),
                    st3\<lparr>mem := SaveMessage chatID (assistant_msg (resp_Content resp)) (mem st3)\<rparr>)
                 else
                   let toolCallCount' = toolCallCount + int (length (resp_ToolCalls resp)) in
                   if toolCallCount' > MaxToolCalls (cfg a) then
                     (Inr (truncation_msg (resp_Content resp)),
                      st3\<lparr>mem := SaveMessage chatID
                                    (assistant_msg (truncation_msg (resp_Content resp))) (mem st3)\<rparr>)
                   else
                     let assistantMsg = \<lparr>Role = ''assistant'', Content = resp_Content resp,
                                         ToolCalls = resp_ToolCalls resp, ToolCallID = []\<rparr>
                     in case run_tool_calls (tools a) (resp_ToolCalls resp)
                               (messages1 @ [assistantMsg]) st3 of
                          (messages2, st4) \<Rightarrow>
                            agent_loop a chatID messages2 toolCallCount' st4)"
  by pat_completeness auto
termination
  by (relation "measure (\<lambda>(a, chatID, messages, toolCallCount, st).
                  nat (MaxToolCalls (cfg a) - toolCallCount))")
     (auto simp: length_greater_0_conv [symmetric] simp del: length_greater_0_conv)

declare agent_loop.simps [simp del]

text \<open>Lines 14 to 45: loading the history and the summary, and saving the user message.\<close>

definition build_messages :: "string \<Rightarrow> message list \<Rightarrow> string \<Rightarrow> message list" where
  "build_messages summary history userText =
     (if summary \<noteq> [] then
        [user_msg (''[Previous conversation summary]: '' @ summary),
         assistant_msg ''I understand the previous context. How can I help?'']
      else [])
     @ history @ [user_msg userText]"

definition processMessage :: "'w agent \<Rightarrow> string \<Rightarrow> string \<Rightarrow> 'w state
    \<Rightarrow> (go_error + string) \<times> 'w state" where
  "processMessage a chatID userText st =
     (let history = GetHistory chatID 50 (mem st);
          summary = GetSummary chatID (mem st);
          messages = build_messages summary history userText;
          st1 = st\<lparr>mem := SaveMessage chatID (user_msg userText) (mem st)\<rparr>
      in agent_loop a chatID messages 0 st1)"

section \<open>Regular expressions (Go's \<open>regexp\<close>, the fragment the repository uses)\<close>

text \<open>
  The syntax trees of the patterns the code compiles, and a backtracking matcher that
  returns the ends of all matches from a position in Go's order of preference
  (leftmost-first: the earlier alternative, the longer repetition).  A position is the
  byte before it (\<open>None\<close> at the start of the text) and the text from it on.  The
  classes \<open>\s\<close>, \<open>\d\<close> and the boundary \<open>\b\<close> are ASCII in Go; bytes are compared, so
  on ASCII classes the matcher agrees with Go's rune-wise scan of UTF-8 text.
\<close>

datatype rx =
    Eps
  | Cls string
  | AnyButNL
  | WordB
  | Bol
  | Seq rx rx
  | Alt rx rx
  | Star rx

type_synonym pos = "char option \<times> string"

definition digit_chars :: string where
  "digit_chars = ''0123456789''"

definition lower_chars :: string where
  "lower_chars = ''abcdefghijklmnopqrstuvwxyz''"

definition upper_chars :: string where
  "upper_chars = ''ABCDEFGHIJKLMNOPQRSTUVWXYZ''"

definition word_chars :: string where
  "word_chars = digit_chars @ upper_chars @ ''_'' @ lower_chars"

definition is_word :: "char option \<Rightarrow> bool" where
  "is_word co = (case co of None \<Rightarrow> False | Some c \<Rightarrow> c \<in> set word_chars)"

fun star_run :: "(pos \<Rightarrow> pos list) \<Rightarrow> nat \<Rightarrow> pos \<Rightarrow> pos list" where
  "star_run f 0 p = [p]"
| "star_run f (Suc n) p =
     concat (map (\<lambda>q. if length (snd q) < length (snd p) then star_run f n q else []) (f p))
     @ [p]"

primrec rx_run :: "rx \<Rightarrow> pos \<Rightarrow> pos list" where
  "rx_run Eps = (\<lambda>p. [p])"
| "rx_run (Cls cs) =
     (\<lambda>p. case snd p of [] \<Rightarrow> [] | c # t \<Rightarrow> if c \<in> set cs then [(Some c, t)] else [])"
| "rx_run AnyButNL =
     (\<lambda>p. case snd p of [] \<Rightarrow> [] | c # t \<Rightarrow> if c \<noteq> CHR 0x0A then [(Some c, t)] else [])"
| "rx_run WordB =
     (\<lambda>p. if is_word (fst p) \<noteq> is_word (case snd p of [] \<Rightarrow> None | c # t \<Rightarrow> Some c)
          then [p] else [])"
| "rx_run Bol = (\<lambda>p. if fst p = None then [p] else [])"
| "rx_run (Seq r1 r2) = (\<lambda>p. concat (map (rx_run r2) (rx_run r1 p)))"
| "rx_run (Alt r1 r2) = (\<lambda>p. rx_run r1 p @ rx_run r2 p)"
| "rx_run (Star r) = (\<lambda>p. star_run (rx_run r) (length (snd p)) p)"

text \<open>\<open>MatchString\<close>: is there a match starting anywhere in the text.\<close>

fun search :: "rx \<Rightarrow> char option \<Rightarrow> string \<Rightarrow> bool" where
  "search r prev [] = (rx_run r (prev, []) \<noteq> [])"
| "search r prev (c # t) = (rx_run r (prev, c # t) \<noteq> [] \<or> search r (Some c) t)"

definition MatchString :: "rx \<Rightarrow> string \<Rightarrow> bool" where
  "MatchString r s = search r None s"

text \<open>
  The preferred match at a position, as the number of bytes it covers and the byte
  before its end.
\<close>

definition rx_first :: "rx \<Rightarrow> pos \<Rightarrow> (nat \<times> char option) option" where
  "rx_first r p =
     (case rx_run r p of [] \<Rightarrow> None
      | q # qs \<Rightarrow> Some (length (snd p) - length (snd q), fst q))"

text \<open>Building blocks: literals, \<open>(?i)\<close> literals, sequences, alternatives, repetition.\<close>

definition lit :: "string \<Rightarrow> rx" where
  "lit s = foldr (\<lambda>c r. Seq (Cls [c]) r) s Eps"

definition lower_upper :: "(char \<times> char) list" where
  "lower_upper = zip lower_chars upper_chars"

text \<open>
  Under \<open>(?i)\<close> Go folds case by Unicode's simple folding: besides the other ASCII
  case, \<open>k\<close> also matches U+212A (bytes E2 84 AA) and \<open>s\<close> also matches U+017F (bytes
  C5 BF).
\<close>

definition fold_char :: "char \<Rightarrow> rx" where
  "fold_char c =
     (if c = CHR ''k'' \<or> c = CHR ''K'' then
        Alt (Cls ''kK'') (lit [CHR 0xE2, CHR 0x84, CHR 0xAA])
      else if c = CHR ''s'' \<or> c = CHR ''S'' then
        Alt (Cls ''sS'') (lit [CHR 0xC5, CHR 0xBF])
      else case map_of lower_upper c of
             Some u \<Rightarrow> Cls [c, u]
           | None \<Rightarrow>
               (case map_of (map (\<lambda>(l, u). (u, l)) lower_upper) c of
                  Some l \<Rightarrow> Cls [c, l]
                | None \<Rightarrow> Cls [c]))"

definition ci :: "string \<Rightarrow> rx" where
  "ci s = foldr (\<lambda>c r. Seq (fold_char c) r) s Eps"

definition rseq :: "rx list \<Rightarrow> rx" where
  "rseq rs = foldr Seq rs Eps"

fun ralt :: "rx list \<Rightarrow> rx" where
  "ralt [] = Eps"
| "ralt [r] = r"
| "ralt (r # rs) = Alt r (ralt rs)"

definition Plus :: "rx \<Rightarrow> rx" where
  "Plus r = Seq r (Star r)"

definition Opt :: "rx \<Rightarrow> rx" where
  "Opt r = Alt r Eps"

text \<open>\<open>r{n,m}\<close>, greedy.\<close>

fun rx_rep :: "rx \<Rightarrow> nat \<Rightarrow> nat \<Rightarrow> rx" where
  "rx_rep r 0 0 = Eps"
| "rx_rep r 0 (Suc m) = Opt (Seq r (rx_rep r 0 m))"
| "rx_rep r (Suc n) m = Seq r (rx_rep r n (m - 1))"

text \<open>\<open>\s\<close> is \<open>[\t\n\f\r ]\<close>; \<open>\d\<close> is \<open>[0-9]\<close>.\<close>

definition sp :: rx where
  "sp = Cls [CHR 0x09, CHR 0x0A, CHR 0x0C, CHR 0x0D, CHR '' '']"

definition dg :: rx where
  "dg = Cls digit_chars"

section \<open>Shell tool (internal/tool/shell.go)\<close>

text \<open>
  A compiled regexp is its source text (what \<open>String()\<close> returns) and its syntax tree.
  \<open>bs\<close> is the backslash.
\<close>

type_synonym regexp = "string \<times> rx"

definition bs :: string where
  "bs = [CHR 0x5C]"

definition denyPatterns :: "regexp list" where
  "denyPatterns =
    [
     (''(?i)'' @ bs @ ''brm'' @ bs @ ''s+-[rRf]{1,3}'' @ bs @ ''s+[/~*]'',
      rseq [WordB, ci ''rm'', Plus sp, lit ''-'', rx_rep (Cls ''rRfF'') 1 3, Plus sp, Cls ''/~*'']),
     (''(?i)'' @ bs @ ''brm'' @ bs @ ''s+-[rRf]{1,3}'' @ bs @ ''b'',
      rseq [WordB, ci ''rm'', Plus sp, lit ''-'', rx_rep (Cls ''rRfF'') 1 3, WordB]),
     (''(?i)'' @ bs @ ''bmkfs'' @ bs @ ''b'',
      rseq [WordB, ci ''mkfs'', WordB]),
     (''(?i)'' @ bs @ ''bdd'' @ bs @ ''s+if='',
      rseq [WordB, ci ''dd'', Plus sp, ci ''if='']),
     ('':'' @ bs @ ''('' @ bs @ '')'' @ bs @ ''s*'' @ bs @ ''{.*'' @ bs @ ''|.*&'' @ bs @ ''s*'' @ bs @ ''}'' @ bs @ ''s*;'',
      rseq [lit '':()'', Star sp, lit ''{'', Star AnyButNL, lit ''|'', Star AnyButNL, lit ''&'', Star sp, lit ''}'', Star sp, lit '';'']),
     (''(?i)'' @ bs @ ''b(shutdown|reboot|poweroff|halt)'' @ bs @ ''b'',
      rseq [WordB, ralt [ci ''shutdown'', ci ''reboot'', ci ''poweroff'', ci ''halt''], WordB]),
     (''(?i)'' @ bs @ ''bchmod'' @ bs @ ''s+-R'' @ bs @ ''s+777'' @ bs @ ''s+/'',
      rseq [WordB, ci ''chmod'', Plus sp, ci ''-R'', Plus sp, lit ''777'', Plus sp, lit ''/'']),
     (''(?i)'' @ bs @ ''bchown'' @ bs @ ''s+-R'' @ bs @ ''b'',
      rseq [WordB, ci ''chown'', Plus sp, ci ''-R'', WordB]),
     (''>'' @ bs @ ''s*/dev/sd[a-z]'',
      rseq [lit ''>'', Star sp, lit ''/dev/sd'', Cls lower_chars]),
     (''(?i)'' @ bs @ ''b(curl|wget)'' @ bs @ ''b.*'' @ bs @ ''|'' @ bs @ ''s*(sh|bash)'' @ bs @ ''b'',
      rseq [WordB, ralt [ci ''curl'', ci ''wget''], WordB, Star AnyButNL, lit ''|'', Star sp, ralt [ci ''sh'', ci ''bash''], WordB]),
     (''(?i)'' @ bs @ ''beval'' @ bs @ ''b'',
      rseq [WordB, ci ''eval'', WordB]),
     (''(?i)'' @ bs @ ''bexec'' @ bs @ ''b'',
      rseq [WordB, ci ''exec'', WordB]),
     (''(?i)'' @ bs @ ''bsudo'' @ bs @ ''s+(rm|dd|mkfs)'' @ bs @ ''b'',
      rseq [WordB, ci ''sudo'', Plus sp, ralt [ci ''rm'', ci ''dd'', ci ''mkfs''], WordB]),
     (''(?i)'' @ bs @ ''b(killall|kill'' @ bs @ ''s+-9)'' @ bs @ ''b'',
      rseq [WordB, ralt [ci ''killall'', rseq [ci ''kill'', Plus sp, lit ''-9'']], WordB]),
     (''(?i)'' @ bs @ ''b(passwd|useradd|userdel|usermod)'' @ bs @ ''b'',
      rseq [WordB, ralt [ci ''passwd'', ci ''useradd'', ci ''userdel'', ci ''usermod''], WordB]),
     (''(?i)'' @ bs @ ''biptables'' @ bs @ ''s+-F'' @ bs @ ''b'',
      rseq [WordB, ci ''iptables'', Plus sp, ci ''-F'', WordB]),
     (''(?i)'' @ bs @ ''bufw'' @ bs @ ''s+disable'' @ bs @ ''b'',
      rseq [WordB, ci ''ufw'', Plus sp, ci ''disable'', WordB]),
     (''(?i)'' @ bs @ ''b(nc|ncat)'' @ bs @ ''s+-l'' @ bs @ ''b'',
      rseq [WordB, ralt [ci ''nc'', ci ''ncat''], Plus sp, ci ''-l'', WordB]),
     (''(?i)'' @ bs @ ''b(python3?|perl|ruby)'' @ bs @ ''s+-[ce]'' @ bs @ ''b'',
      rseq [WordB, ralt [rseq [ci ''python'', Opt (lit ''3'')], ci ''perl'', ci ''ruby''], Plus sp, lit ''-'', Cls ''cCeE'', WordB]),
     (''(?i)'' @ bs @ ''bbase64'' @ bs @ ''s+-d'' @ bs @ ''b'',
      rseq [WordB, ci ''base64'', Plus sp, ci ''-d'', WordB]),
     (''(?i)'' @ bs @ ''bhistory'' @ bs @ ''s+-c'' @ bs @ ''b'',
      rseq [WordB, ci ''history'', Plus sp, ci ''-c'', WordB]),
     (''(?i)'' @ bs @ ''bshred'' @ bs @ ''b'',
      rseq [WordB, ci ''shred'', WordB]),
     (''/etc/(shadow|passwd)'' @ bs @ ''b'',
      rseq [lit ''/etc/'', ralt [lit ''shadow'', lit ''passwd''], WordB]),
     (''(?i)'' @ bs @ ''bcrontab'' @ bs @ ''s+-r'' @ bs @ ''b'',
      rseq [WordB, ci ''crontab'', Plus sp, ci ''-r'', WordB]),
     (''(?i)'' @ bs @ ''bsystemctl'' @ bs @ ''s+(stop|disable)'' @ bs @ ''b'',
      rseq [WordB, ci ''systemctl'', Plus sp, ralt [ci ''stop'', ci ''disable''], WordB]),
     (''(?i)'' @ bs @ ''blaunchctl'' @ bs @ ''s+unload'' @ bs @ ''b'',
      rseq [WordB, ci ''launchctl'', Plus sp, ci ''unload'', WordB]),
     (''(?i)'' @ bs @ ''bdefaults'' @ bs @ ''s+delete'' @ bs @ ''b'',
      rseq [WordB, ci ''defaults'', Plus sp, ci ''delete'', WordB]),
     (''(?i)'' @ bs @ ''bxargs'' @ bs @ ''s+rm'' @ bs @ ''b'',
      rseq [WordB, ci ''xargs'', Plus sp, ci ''rm'', WordB]),
     (''(?i)'' @ bs @ ''bfind'' @ bs @ ''s+/'' @ bs @ ''s+.*-delete'' @ bs @ ''b'',
      rseq [WordB, ci ''find'', Plus sp, lit ''/'', Plus sp, Star AnyButNL, ci ''-delete'', WordB]),
     (''(?i)'' @ bs @ ''btruncate'' @ bs @ ''s+-s'' @ bs @ ''s+0'' @ bs @ ''b'',
      rseq [WordB, ci ''truncate'', Plus sp, ci ''-s'', Plus sp, lit ''0'', WordB]),
     (''(?i)'' @ bs @ ''bcat'' @ bs @ ''s+/dev/urandom'' @ bs @ ''b'',
      rseq [WordB, ci ''cat'', Plus sp, ci ''/dev/urandom'', WordB]),
     (''(?i)'' @ bs @ ''bfork'' @ bs @ ''('' @ bs @ '')'',
      rseq [WordB, ci ''fork'', lit ''()'']),
     (''(?i)'' @ bs @ ''bwhile'' @ bs @ ''s+true'' @ bs @ ''b'',
      rseq [WordB, ci ''while'', Plus sp, ci ''true'', WordB]),
     (''(?i)'' @ bs @ ''bnohup'' @ bs @ ''b'',
      rseq [WordB, ci ''nohup'', WordB]),
     (''(?i)'' @ bs @ ''bscp'' @ bs @ ''b'',
      rseq [WordB, ci ''scp'', WordB]),
     (''(?i)'' @ bs @ ''brsync'' @ bs @ ''s+--delete'' @ bs @ ''b'',
      rseq [WordB, ci ''rsync'', Plus sp, ci ''--delete'', WordB]),
     (''(?i)'' @ bs @ ''bgit'' @ bs @ ''s+push'' @ bs @ ''s+--force'' @ bs @ ''b'',
      rseq [WordB, ci ''git'', Plus sp, ci ''push'', Plus sp, ci ''--force'', WordB]),
     (''(?i)'' @ bs @ ''bnpm'' @ bs @ ''s+publish'' @ bs @ ''b'',
      rseq [WordB, ci ''npm'', Plus sp, ci ''publish'', WordB]),
     (''(?i)'' @ bs @ ''bpip'' @ bs @ ''s+install'' @ bs @ ''s+--'',
      rseq [WordB, ci ''pip'', Plus sp, ci ''install'', Plus sp, lit ''--'']),
     (''(?i)'' @ bs @ ''bdocker'' @ bs @ ''s+(rm|rmi)'' @ bs @ ''s+-f'' @ bs @ ''b'',
      rseq [WordB, ci ''docker'', Plus sp, ralt [ci ''rm'', ci ''rmi''], Plus sp, ci ''-f'', WordB])
    ]"

record ShellTool =
  workspaceDir :: string
  timeoutSecs :: int
  maxOutputChars :: int
  sandboxEnabled :: bool

text \<open>
  \<open>collapseWhitespace\<close>: the loop over the command with its flag \<open>inSpace\<close>.  The four
  blanks are single bytes that occur in no multi-byte UTF-8 sequence, and the command
  comes out of \<open>json.Unmarshal\<close> as valid UTF-8, so copying runes is copying bytes.
\<close>

fun collapse_loop :: "bool \<Rightarrow> string \<Rightarrow> string" where
  "collapse_loop inSpace [] = []"
| "collapse_loop inSpace (ch # s) =
     (if ch = CHR '' '' \<or> ch = CHR 0x09 \<or> ch = CHR 0x0A \<or> ch = CHR 0x0D then
        (if \<not> inSpace then CHR '' '' # collapse_loop True s else collapse_loop True s)
      else ch # collapse_loop False s)"

definition collapseWhitespace :: "string \<Rightarrow> string" where
  "collapseWhitespace s = collapse_loop False s"

text \<open>\<open>checkDenyList\<close>: the reason, empty when no pattern matches.\<close>

fun deny_loop :: "regexp list \<Rightarrow> string \<Rightarrow> string" where
  "deny_loop [] normalized = []"
| "deny_loop (pattern # ps) normalized =
     (if MatchString (snd pattern) normalized
      then ''matches deny pattern: '' @ fst pattern
      else deny_loop ps normalized)"

definition checkDenyList :: "string \<Rightarrow> string" where
  "checkDenyList command = deny_loop denyPatterns (collapseWhitespace command)"

text \<open>
  \<open>absPathPattern\<close> is \<open>(?:^|\s)(/[a-zA-Z][a-zA-Z0-9_/.-]*)\<close>: what precedes the group,
  and the group.
\<close>

definition absPathPattern_pre :: rx where
  "absPathPattern_pre = Alt Bol sp"

definition absPathPattern_group :: rx where
  "absPathPattern_group =
     rseq [lit ''/'', Cls (lower_chars @ upper_chars),
           Star (Cls (lower_chars @ upper_chars @ digit_chars @ ''_/.-''))]"

text \<open>
  The preferred match of \<open>pre\<close> followed by \<open>(grp)\<close> at a position: where the group
  starts, where the match ends (both counted from the position), and the byte before the
  end.
\<close>

definition rx_first_group :: "rx \<Rightarrow> rx \<Rightarrow> pos \<Rightarrow> (nat \<times> nat \<times> char option) option" where
  "rx_first_group pre grp p =
     (case concat (map (\<lambda>q. map (\<lambda>e. (q, e)) (rx_run grp q)) (rx_run pre p)) of
        [] \<Rightarrow> None
      | (q, e) # rest \<Rightarrow>
          Some (length (snd p) - length (snd q), length (snd p) - length (snd e), fst e))"

text \<open>
  \<open>FindAllStringSubmatch(s, -1)\<close>, reduced to the text of group 1 of every match: the
  successive leftmost matches, none overlapping another; an empty match directly after a
  match is not reported, and the scan moves on by one byte after an empty match.
\<close>

function find_all_group :: "rx \<Rightarrow> rx \<Rightarrow> char option \<Rightarrow> string \<Rightarrow> bool \<Rightarrow> string list" where
  "find_all_group pre grp prev s afterMatch =
     (case rx_first_group pre grp (prev, s) of
        None \<Rightarrow>
          (case s of [] \<Rightarrow> [] | c # t \<Rightarrow> find_all_group pre grp (Some c) t False)
      | Some (a, b, e) \<Rightarrow>
          if b = 0 then
            (if afterMatch then [] else [[]])
            @ (case s of [] \<Rightarrow> [] | c # t \<Rightarrow> find_all_group pre grp (Some c) t False)
          else
            take (b - a) (drop a s)
            # (case s of [] \<Rightarrow> [] | c # t \<Rightarrow> find_all_group pre grp e (drop (b - 1) t) True))"
  by pat_completeness auto
termination
  by (relation "measure (\<lambda>(pre, grp, prev, s, afterMatch). length s)") auto

declare find_all_group.simps [simp del]

definition FindAllStringSubmatch_group :: "rx \<Rightarrow> rx \<Rightarrow> string \<Rightarrow> string list" where
  "FindAllStringSubmatch_group pre grp s = find_all_group pre grp None s False"

text \<open>
  \<open>containsAbsolutePathOutsideWorkspace\<close>.  \<open>filepath.Abs\<close> belongs to Go's library and
  depends on the working directory; it is the parameter \<open>filepath_Abs\<close> (\<open>None\<close>: it fails).
\<close>

fun outside_loop :: "string \<Rightarrow> string list \<Rightarrow> bool" where
  "outside_loop absWorkspace [] = False"
| "outside_loop absWorkspace (path # ms) =
     (if \<not> prefix absWorkspace path \<and> \<not> prefix ''/dev/null'' path then True
      else outside_loop absWorkspace ms)"

definition containsAbsolutePathOutsideWorkspace ::
    "(string \<Rightarrow> string option) \<Rightarrow> string \<Rightarrow> string \<Rightarrow> bool" where
  "containsAbsolutePathOutsideWorkspace filepath_Abs command workspace =
     (case filepath_Abs workspace of
        None \<Rightarrow> False
      | Some absWorkspace \<Rightarrow>
          outside_loop absWorkspace
            (FindAllStringSubmatch_group absPathPattern_pre absPathPattern_group command))"

text \<open>
  \<open>Execute\<close> up to the point where it starts the subprocess: the argument is what
  \<open>json.Unmarshal\<close> gave (\<open>Inl\<close> its error, \<open>Inr\<close> the command); the result is the
  rejection, or the command handed to \<open>sh -c\<close>.
\<close>

datatype shell_outcome = Rejected tool_result | Runs string

definition error_result :: "string \<Rightarrow> tool_result" where
  "error_result e = \<lparr>Output = [], Error = e, IsError = True\<rparr>"

definition ShellTool_Execute ::
    "(string \<Rightarrow> string option) \<Rightarrow> ShellTool \<Rightarrow> string + string \<Rightarrow> shell_outcome" where
  "ShellTool_Execute filepath_Abs t args =
     (case args of
        Inl err \<Rightarrow> Rejected (error_result (''invalid arguments: '' @ err))
      | Inr command \<Rightarrow>
          if command = [] then Rejected (error_result ''command is required'')
          else if sandboxEnabled t \<and> checkDenyList command \<noteq> [] then
            Rejected (error_result (''command blocked by sandbox: '' @ checkDenyList command))
          else if sandboxEnabled t \<and> sublist ''../'' command then
            Rejected (error_result ''command blocked: path traversal detected'')
          else if sandboxEnabled t \<and> workspaceDir t \<noteq> []
                  \<and> containsAbsolutePathOutsideWorkspace filepath_Abs command (workspaceDir t) then
            Rejected (error_result ''command blocked: absolute path outside workspace'')
          else Runs command)"

section \<open>Browser tool: URL validation (internal/tool/browser.go)\<close>

text \<open>
  \<open>url.Parse\<close>, \<open>net.ParseIP\<close>, the address classes of \<open>net.IP\<close> and
  \<open>strings.ToLower\<close> belong to Go's library; they are the fields of \<open>netlib\<close>.  Of a
  parsed URL the code reads \<open>u.Scheme\<close> and \<open>u.Hostname()\<close>.
\<close>

record url =
  Scheme :: string
  Hostname :: string

record 'ip netlib =
  url_Parse :: "string \<Rightarrow> string + url"
  net_ParseIP :: "string \<Rightarrow> 'ip option"
  IsLoopback :: "'ip \<Rightarrow> bool"
  IsPrivate :: "'ip \<Rightarrow> bool"
  IsLinkLocalUnicast :: "'ip \<Rightarrow> bool"
  IsLinkLocalMulticast :: "'ip \<Rightarrow> bool"
  IsUnspecified :: "'ip \<Rightarrow> bool"
  strings_ToLower :: "string \<Rightarrow> string"

record BrowserConfig =
  b_Enabled :: bool
  Headless :: bool
  b_TimeoutSecs :: int
  MaxTabs :: int
  AllowedDomains :: "string list"
  DeniedDomains :: "string list"
  MaxPageSizeKB :: int

definition isPrivateHost :: "'ip netlib \<Rightarrow> string \<Rightarrow> bool" where
  "isPrivateHost L host =
     (let lower = strings_ToLower L host in
      if lower = ''localhost'' \<or> lower = ''ip6-localhost'' \<or> lower = ''ip6-loopback'' then True
      else case net_ParseIP L host of
             None \<Rightarrow> False
           | Some ip \<Rightarrow>
               IsLoopback L ip \<or> IsPrivate L ip \<or> IsLinkLocalUnicast L ip
               \<or> IsLinkLocalMulticast L ip \<or> IsUnspecified L ip)"

text \<open>The two loops over the domain lists: is the domain an entry or a subdomain of one.\<close>

fun domain_listed :: "'ip netlib \<Rightarrow> string list \<Rightarrow> string \<Rightarrow> bool" where
  "domain_listed L [] domain = False"
| "domain_listed L (d # ds) domain =
     (let dl = strings_ToLower L d in
      if dl = domain \<or> suffix (''.'' @ dl) domain then True
      else domain_listed L ds domain)"

text \<open>\<open>validateURL\<close>: \<open>None\<close> is the \<open>nil\<close> error, \<open>Some\<close> carries the error's text.\<close>

definition validateURL :: "'ip netlib \<Rightarrow> BrowserConfig \<Rightarrow> string \<Rightarrow> string option" where
  "validateURL L c rawURL =
     (case url_Parse L rawURL of
        Inl err \<Rightarrow> Some (''invalid URL: '' @ err)
      | Inr u \<Rightarrow>
          if Scheme u \<noteq> ''http'' \<and> Scheme u \<noteq> ''https'' then
            Some (''only http/https schemes are allowed, got: '' @ Scheme u)
          else
            let host = Hostname u in
            if isPrivateHost L host then
              Some (''access to private/loopback addresses is denied: '' @ host)
            else
              let domain = strings_ToLower L host in
              if domain_listed L (DeniedDomains c) domain then
                Some (''domain '' @ domain @ '' is denied'')
              else if length (AllowedDomains c) > 0
                      \<and> \<not> domain_listed L (AllowedDomains c) domain then
                Some (''domain '' @ domain @ '' is not in allowed list'')
              else None)"

section \<open>Channel path (Agent.handleMessage)\<close>

text \<open>\<open>err.Error()\<close>.\<close>

fun Error_text :: "go_error \<Rightarrow> string" where
  "Error_text (LLMError t m None) = m"
| "Error_text (LLMError t m (Some e)) = m @ '': '' @ Error_text e"
| "Error_text (WrapError s e) = s @ Error_text e"
| "Error_text (OtherError s) = s"

definition handleMessage :: "'w agent \<Rightarrow> InboundMessage \<Rightarrow> 'w state \<Rightarrow> 'w state" where
  "handleMessage a msg st =
     (case processMessage a (in_ChatID msg) (in_Text msg) st of
        (res, st1) \<Rightarrow>
          (case (case res of
                   Inl err \<Rightarrow>
                     (''Sorry, I encountered an error processing your message. Please try again.'',
                      Publish (error_ev err) st1)
                 | Inr response \<Rightarrow> (response, st1)) of
             (response, st2) \<Rightarrow>
               (case map_of (chanMgr a) (ChannelName msg) of
                  None \<Rightarrow> st2
                | Some ch \<Rightarrow>
                    let outMsg = \<lparr>out_ChatID = in_ChatID msg, out_Text = response, ReplyTo = []\<rparr>;
                        st3 = Publish (outbound_message outMsg) st2
                    in case ch outMsg (world st3) of
                         (err, w') \<Rightarrow> st3\<lparr>world := w'\<rparr>)))"

text \<open>The handler that \<open>Start\<close> installs on every running channel.\<close>

definition on_message :: "'w agent \<Rightarrow> InboundMessage \<Rightarrow> 'w state \<Rightarrow> 'w state" where
  "on_message a msg st = handleMessage a msg (Publish (inbound_message msg) st)"

definition HandleDirectMessage :: "'w agent \<Rightarrow> string \<Rightarrow> string \<Rightarrow> 'w state
    \<Rightarrow> (go_error + string) \<times> 'w state" where
  "HandleDirectMessage a chatID text st = processMessage a chatID text st"

section \<open>PII sanitizer (internal/security/sanitizer.go)\<close>

record piiFilter =
  f_name :: string
  f_pattern :: rx
  f_prefix :: string

definition alnum_chars :: string where
  "alnum_chars = lower_chars @ upper_chars @ digit_chars"

definition sep :: rx where
  "sep = Cls ([CHR ''-'', CHR ''.''] @ [CHR 0x09, CHR 0x0A, CHR 0x0C, CHR 0x0D, CHR '' ''])"

definition dash_sp :: rx where
  "dash_sp = Cls ([CHR ''-''] @ [CHR 0x09, CHR 0x0A, CHR 0x0C, CHR 0x0D, CHR '' ''])"

text \<open>
  The five patterns of \<open>defaultFilters\<close>:
  \<^verbatim>\<open>[a-zA-Z0-9._%+-]+@[a-zA-Z0-9.-]+\.[a-zA-Z]{2,}\<close>,
  \<^verbatim>\<open>(?:\+?\d{1,3}[-.\s]?)?\(?\d{2,4}\)?[-.\s]?\d{3,4}[-.\s]?\d{3,4}\<close>,
  \<^verbatim>\<open>\b\d{4}[-\s]?\d{4}[-\s]?\d{4}[-\s]?\d{4}\b\<close>,
  \<^verbatim>\<open>\b\d{1,3}\.\d{1,3}\.\d{1,3}\.\d{1,3}\b\<close> and
  \<^verbatim>\<open>\b\d{3}-\d{2}-\d{4}\b\<close>.
\<close>

definition email_rx :: rx where
  "email_rx =
     rseq [Plus (Cls (alnum_chars @ ''._%+-'')), lit ''@'', Plus (Cls (alnum_chars @ ''.-'')),
           lit ''.'', Cls (lower_chars @ upper_chars), Cls (lower_chars @ upper_chars),
           Star (Cls (lower_chars @ upper_chars))]"

definition phone_rx :: rx where
  "phone_rx =
     rseq [Opt (rseq [Opt (lit ''+''), rx_rep dg 1 3, Opt sep]),
           Opt (lit ''(''), rx_rep dg 2 4, Opt (lit '')''), Opt sep,
           rx_rep dg 3 4, Opt sep, rx_rep dg 3 4]"

definition card_rx :: rx where
  "card_rx =
     rseq [WordB, rx_rep dg 4 4, Opt dash_sp, rx_rep dg 4 4, Opt dash_sp,
           rx_rep dg 4 4, Opt dash_sp, rx_rep dg 4 4, WordB]"

definition ip_rx :: rx where
  "ip_rx =
     rseq [WordB, rx_rep dg 1 3, lit ''.'', rx_rep dg 1 3, lit ''.'',
           rx_rep dg 1 3, lit ''.'', rx_rep dg 1 3, WordB]"

definition ssn_rx :: rx where
  "ssn_rx = rseq [WordB, rx_rep dg 3 3, lit ''-'', rx_rep dg 2 2, lit ''-'', rx_rep dg 4 4, WordB]"

definition defaultFilters :: "piiFilter list" where
  "defaultFilters =
     [\<lparr>f_name = ''email'', f_pattern = email_rx, f_prefix = ''EMAIL''\<rparr>,
      \<lparr>f_name = ''phone'', f_pattern = phone_rx, f_prefix = ''PHONE''\<rparr>,
      \<lparr>f_name = ''card'', f_pattern = card_rx, f_prefix = ''CARD''\<rparr>,
      \<lparr>f_name = ''ip'', f_pattern = ip_rx, f_prefix = ''IP''\<rparr>,
      \<lparr>f_name = ''ssn'', f_pattern = ssn_rx, f_prefix = ''SSN''\<rparr>]"

record PIIFilterConfig =
  Enabled :: bool
  FilterEmails :: bool
  FilterPhones :: bool
  FilterCards :: bool
  FilterIPs :: bool
  FilterSSN :: bool

text \<open>
  The sanitizer.  \<open>mappings\<close> (placeholder to original) is a Go map, kept as an
  association list with one entry per key in order of insertion; \<open>counter\<close> is a Go map
  whose missing keys read as 0.
\<close>

record Sanitizer =
  filters :: "piiFilter list"
  mappings :: "(string \<times> string) list"
  counter :: "string \<Rightarrow> nat"
  enabled :: bool

definition maxPIIMappings :: nat where
  "maxPIIMappings = 1000"

definition enableMap :: "PIIFilterConfig \<Rightarrow> string \<Rightarrow> bool" where
  "enableMap c name =
     (if name = ''email'' then FilterEmails c
      else if name = ''phone'' then FilterPhones c
      else if name = ''card'' then FilterCards c
      else if name = ''ip'' then FilterIPs c
      else if name = ''ssn'' then FilterSSN c
      else False)"

definition NewSanitizer :: "PIIFilterConfig \<Rightarrow> Sanitizer" where
  "NewSanitizer c =
     \<lparr>filters = filter (\<lambda>f. enableMap c (f_name f)) defaultFilters,
      mappings = [], counter = (\<lambda>k. 0), enabled = Enabled c\<rparr>"

text \<open>\<open>%d\<close> of a counter.\<close>

function itoa :: "nat \<Rightarrow> string" where
  "itoa n = (if n < 10 then [digit_chars ! n] else itoa (n div 10) @ [digit_chars ! (n mod 10)])"
  by pat_completeness auto
termination
  by (relation "measure (\<lambda>n. n)") auto

declare itoa.simps [simp del]

text \<open>
  \<open>ReplaceAllStringFunc\<close>: the successive leftmost matches, none overlapping another, each
  replaced by what \<open>repl\<close> returns for it; \<open>repl\<close> reads and changes the state \<open>'s\<close>.
  An empty match directly after a match is not replaced, and the scan moves on by one
  byte after an empty match.
\<close>

function replace_scan :: "rx \<Rightarrow> (string \<Rightarrow> 's \<Rightarrow> string \<times> 's) \<Rightarrow> char option \<Rightarrow> string \<Rightarrow> bool \<Rightarrow> 's
    \<Rightarrow> string \<times> 's" where
  "replace_scan r repl prev s afterMatch st =
     (case rx_first r (prev, s) of
        None \<Rightarrow>
          (case s of
             [] \<Rightarrow> ([], st)
           | c # t \<Rightarrow>
               (case replace_scan r repl (Some c) t False st of
                  (out, st') \<Rightarrow> (c # out, st')))
      | Some (n, e) \<Rightarrow>
          if n = 0 then
            (case (if afterMatch then ([], st) else repl [] st) of
               (rep, st1) \<Rightarrow>
                 (case s of
                    [] \<Rightarrow> (rep, st1)
                  | c # t \<Rightarrow>
                      (case replace_scan r repl (Some c) t False st1 of
                         (out, st2) \<Rightarrow> (rep @ c # out, st2))))
          else
            (case repl (take n s) st of
               (rep, st1) \<Rightarrow>
                 (case s of
                    [] \<Rightarrow> (rep, st1)
                  | c # t \<Rightarrow>
                      (case replace_scan r repl e (drop (n - 1) t) True st1 of
                         (out, st2) \<Rightarrow> (rep @ out, st2)))))"
  by pat_completeness auto
termination
  by (relation "measure (\<lambda>(r, repl, prev, s, afterMatch, st). length s)") auto

declare replace_scan.simps [simp del]

definition ReplaceAllStringFunc :: "rx \<Rightarrow> string \<Rightarrow> (string \<Rightarrow> 's \<Rightarrow> string \<times> 's) \<Rightarrow> 's
    \<Rightarrow> string \<times> 's" where
  "ReplaceAllStringFunc r src repl st = replace_scan r repl None src False st"

text \<open>
  The function literal passed to \<open>ReplaceAllStringFunc\<close>.  Its \<open>range\<close> loop returns
  the placeholder of an entry whose original is the match; Go visits the entries in no
  fixed order, which matters only if two entries hold the same original.
\<close>

definition sanitize_match :: "string \<Rightarrow> string \<Rightarrow> Sanitizer \<Rightarrow> string \<times> Sanitizer" where
  "sanitize_match pfx match s =
     (case find (\<lambda>(placeholder, original). original = match) (mappings s) of
        Some (placeholder, original) \<Rightarrow> (placeholder, s)
      | None \<Rightarrow>
          let n = counter s pfx + 1;
              placeholder = ''['' @ pfx @ ''_'' @ itoa n @ '']''
          in (placeholder,
              s\<lparr>counter := (counter s)(pfx := n),
                mappings := AList.update placeholder match (mappings s)\<rparr>))"

fun sanitize_filters :: "piiFilter list \<Rightarrow> string \<Rightarrow> Sanitizer \<Rightarrow> string \<times> Sanitizer" where
  "sanitize_filters [] result s = (result, s)"
| "sanitize_filters (f # fs) result s =
     (case ReplaceAllStringFunc (f_pattern f) result (sanitize_match (f_prefix f)) s of
        (result', s') \<Rightarrow> sanitize_filters fs result' s')"

definition Sanitize :: "Sanitizer \<Rightarrow> string \<Rightarrow> string \<times> Sanitizer" where
  "Sanitize s text =
     (if \<not> enabled s \<or> length (filters s) = 0 then (text, s)
      else
        let s1 = (if length (mappings s) \<ge> maxPIIMappings
                  then s\<lparr>mappings := [], counter := (\<lambda>k. 0)\<rparr> else s)
        in sanitize_filters (filters s1) text s1)"

text \<open>\<open>indexOf\<close> and \<open>replaceAll\<close>, the file's own string search and replace.\<close>

function indexOf_loop :: "string \<Rightarrow> string \<Rightarrow> nat \<Rightarrow> int" where
  "indexOf_loop s substr i =
     (if int i \<le> int (length s) - int (length substr) then
        (if take (length substr) (drop i s) = substr then int i
         else indexOf_loop s substr (i + 1))
      else - 1)"
  by pat_completeness auto
termination
  by (relation "measure (\<lambda>(s, substr, i). Suc (length s) - i)") auto

declare indexOf_loop.simps [simp del]

definition indexOf :: "string \<Rightarrow> string \<Rightarrow> int" where
  "indexOf s substr = indexOf_loop s substr 0"

text \<open>
  The \<open>for\<close> loop of \<open>replaceAll\<close>.  The test for an empty \<open>old\<close> is the early return
  of \<open>replaceAll\<close>, which the loop is never entered without.
\<close>

function replaceAll_loop :: "string \<Rightarrow> string \<Rightarrow> string \<Rightarrow> string \<Rightarrow> string" where
  "replaceAll_loop result s old new =
     (let i = indexOf s old in
      if i < 0 then result @ s
      else if old = [] then result @ s
      else replaceAll_loop (result @ take (nat i) s @ new) (drop (nat i + length old) s) old new)"
  by pat_completeness auto
termination
proof (relation "measure (\<lambda>(result, s, old, new). length s)", goal_cases)
  case 1
  show ?case by simp
next
  case (2 result s old new i)
  have "0 \<le> indexOf_loop s old k \<Longrightarrow> length old \<le> length s" for k
    by (induction s old k rule: indexOf_loop.induct)
       (subst (asm) (2) indexOf_loop.simps, simp split: if_splits)
  from this [of 0] have "length old \<le> length s"
    using 2 by (simp add: indexOf_def)
  then show ?case
    using 2 by (cases old) auto
qed

declare replaceAll_loop.simps [simp del]

definition replaceAll :: "string \<Rightarrow> string \<Rightarrow> string \<Rightarrow> string" where
  "replaceAll s old new = (if old = [] then s else replaceAll_loop [] s old new)"

text \<open>
  \<open>Restore\<close>.  Go's \<open>range\<close> visits the entries of \<open>mappings\<close> in no fixed order:
  \<open>visit\<close> is the order of this call, some arrangement of the entries.
\<close>

definition Restore :: "((string \<times> string) list \<Rightarrow> (string \<times> string) list) \<Rightarrow> Sanitizer \<Rightarrow> string
    \<Rightarrow> string" where
  "Restore visit s text =
     (if \<not> enabled s then text
      else foldl (\<lambda>result (placeholder, original). replaceAll result placeholder original)
             text (visit (mappings s)))"

definition Reset :: "Sanitizer \<Rightarrow> Sanitizer" where
  "Reset s = s\<lparr>mappings := [], counter := (\<lambda>k. 0)\<rparr>"

section \<open>GUI path (App.SendMessage)\<close>

text \<open>
  \<open>App.SendMessage\<close>: the GUI's entry.  The state is the agent's state and the
  sanitizer.
\<close>

definition SendMessage :: "((string \<times> string) list \<Rightarrow> (string \<times> string) list) \<Rightarrow> 'w agent option
    \<Rightarrow> string \<Rightarrow> 'w state \<times> Sanitizer \<Rightarrow> string \<times> 'w state \<times> Sanitizer" where
  "SendMessage visit ag text ss =
     (case ag of
        None \<Rightarrow> (''Agent not initialized. Please complete setup first.'', ss)
      | Some a \<Rightarrow>
          (case Sanitize (snd ss) text of
             (sanitized, san1) \<Rightarrow>
               (case HandleDirectMessage a ''gui'' sanitized (fst ss) of
                  (Inl err, st1) \<Rightarrow> (''Error: '' @ Error_text err, st1, san1)
                | (Inr response, st1) \<Rightarrow> (Restore visit san1 response, st1, san1))))"

section \<open>The specification's wording, for comparison with the code\<close>

text \<open>
  The result text of a tool call as the specification words it: a failed lookup, a
  transport error from \<open>Execute\<close>, a result with \<open>IsError\<close>, or the output.
\<close>

definition result_text :: "'w registry \<Rightarrow> tool_call \<Rightarrow> 'w \<Rightarrow> string" where
  "result_text reg tc w =
     (case map_of reg (tc_Name tc) of
        None \<Rightarrow> ''Error: tool '' @ [CHR 0x27] @ tc_Name tc @ [CHR 0x27] @ '' not found''
      | Some t \<Rightarrow>
          (case fst (t_Execute t (tc_Arguments tc) w) of
             Inl err \<Rightarrow> ''Error executing tool: '' @ err
           | Inr res \<Rightarrow> if IsError res then ''Error: '' @ Error res else Output res))"

text \<open>The world after a tool call: untouched when the tool is not registered.\<close>

definition world_after :: "'w registry \<Rightarrow> tool_call \<Rightarrow> 'w \<Rightarrow> 'w" where
  "world_after reg tc w =
     (case map_of reg (tc_Name tc) of
        None \<Rightarrow> w
      | Some t \<Rightarrow> snd (t_Execute t (tc_Arguments tc) w))"

text \<open>One \<open>tool\<close> message per call, in the order of the calls.\<close>

fun tool_messages :: "'w registry \<Rightarrow> tool_call list \<Rightarrow> 'w \<Rightarrow> message list" where
  "tool_messages reg [] w = []"
| "tool_messages reg (tc # tcs) w =
     \<lparr>Role = ''tool'', Content = result_text reg tc w, ToolCalls = [], ToolCallID = tc_ID tc\<rparr>
     # tool_messages reg tcs (world_after reg tc w)"

text \<open>The two events the agent publishes around each call.\<close>

fun tool_events :: "tool_call list \<Rightarrow> message list \<Rightarrow> event list" where
  "tool_events (tc # tcs) (m # ms) =
     tool_call_ev tc # tool_result_ev (tc_ID tc) (Content m) # tool_events tcs ms"
| "tool_events tcs ms = []"

text \<open>
  The first two steps of a turn in the order the specification gives them: store the
  user message, then load the last 50 messages and the summary, then build the working
  list and append the user message to it.
\<close>

definition claimed_working_list :: "string \<Rightarrow> string \<Rightarrow> memory \<Rightarrow> message list" where
  "claimed_working_list chatID userText m =
     (let m1 = SaveMessage chatID (user_msg userText) m;
          history = GetHistory chatID 50 m1;
          summary = GetSummary chatID m1
      in build_messages summary history userText)"

text \<open>The messages of the first request among published events.\<close>

fun first_request :: "event list \<Rightarrow> message list option" where
  "first_request [] = None"
| "first_request (llm_request req # es) = Some (req_Messages req)"
| "first_request (e # es) = first_request es"

text \<open>The provider call that \<open>summarize\<close> makes for a working list of more than four messages.\<close>

definition summarizer_call :: "'w agent \<Rightarrow> message list \<Rightarrow> 'w state
    \<Rightarrow> (go_error + llm_response) \<times> 'w" where
  "summarizer_call a messages st =
     cm_provider (ctxManager a) (summaryReq (take (length messages - 4) messages)) (world st)"

text \<open>
  The tool calls a turn has observed, read off its events: the number of calls that the
  provider's responses among the events ask for, and the number of calls that were
  started (one \<open>tool_call\<close> event is published before each execution).
\<close>

fun calls_observed :: "event list \<Rightarrow> nat" where
  "calls_observed [] = 0"
| "calls_observed (llm_response_ev resp # es) = length (resp_ToolCalls resp) + calls_observed es"
| "calls_observed (e # es) = calls_observed es"

fun calls_executed :: "event list \<Rightarrow> nat" where
  "calls_executed [] = 0"
| "calls_executed (tool_call_ev tc # es) = 1 + calls_executed es"
| "calls_executed (e # es) = calls_executed es"

section \<open>Example inputs\<close>

text \<open>
  A world that is the log of the calls made into it, a store with nothing in it, and
  scripted providers and tools.
\<close>

definition cfg0 :: agent_config where
  "cfg0 = \<lparr>SystemPrompt = ''You are helpful.'', MaxTokens = 4096, Temperature = 7 / 10,
           MaxToolCalls = 2, ContextWindow = 100000, SummarizeAt = 80000\<rparr>"

definition st0 :: "string list state" where
  "st0 = \<lparr>world = [], mem = \<lparr>rows = [], summaries = (\<lambda>c. None)\<rparr>, published = []\<rparr>"

definition final_resp :: "string \<Rightarrow> llm_response" where
  "final_resp text =
     \<lparr>resp_Content = text, resp_ToolCalls = [], resp_InputTokens = 0, resp_OutputTokens = 0,
      resp_StopReason = ''stop''\<rparr>"

definition list_call :: tool_call where
  "list_call = \<lparr>tc_ID = ''t1'', tc_Name = ''filesystem'', tc_Arguments = ''{}''\<rparr>"

definition tool_resp :: "tool_call list \<Rightarrow> llm_response" where
  "tool_resp tcs =
     \<lparr>resp_Content = ''Let me look.'', resp_ToolCalls = tcs, resp_InputTokens = 0,
      resp_OutputTokens = 0, resp_StopReason = ''tool_use''\<rparr>"

text \<open>A provider that answers at once.\<close>

definition greeter :: "string list provider" where
  "greeter req w = (Inr (final_resp ''Hi there!''), w @ [''chat''])"

text \<open>A provider that asks for one tool call on its first leg and answers on its second.\<close>

definition two_leg :: "string list provider" where
  "two_leg req w =
     (if ''chat'' \<in> set w then (Inr (final_resp ''I see a.txt and sub/.''), w @ [''chat''])
      else (Inr (tool_resp [list_call]), w @ [''chat'']))"

text \<open>A provider that asks for a tool call on every leg.\<close>

definition tool_hungry :: "string list provider" where
  "tool_hungry req w = (Inr (tool_resp [list_call]), w @ [''chat''])"

text \<open>A provider that fails, with a given error.\<close>

definition failing :: "go_error \<Rightarrow> string list provider" where
  "failing e req w = (Inl e, w @ [''failed''])"

definition filesystem_tool :: "string list tool" where
  "filesystem_tool =
     \<lparr>t_Description = ''files'', t_Parameters = ''{}'',
      t_Execute = (\<lambda>args w. (Inr \<lparr>Output = ''  a.txt'', Error = [], IsError = False\<rparr>,
                             w @ [''tool'']))\<rparr>"

definition agent_of :: "string list provider \<Rightarrow> string list agent" where
  "agent_of p = New cfg0 p [(''filesystem'', filesystem_tool)] []"

definition agent_of_cfg :: "agent_config \<Rightarrow> string list provider \<Rightarrow> string list agent" where
  "agent_of_cfg c p = New c p [(''filesystem'', filesystem_tool)] []"

definition req0 :: chat_request where
  "req0 = chat_req (agent_of greeter) [user_msg ''Hello'']"

text \<open>Calls to a tool that is not registered, to one that breaks, and to one that refuses.\<close>

definition missing_call :: tool_call where
  "missing_call = \<lparr>tc_ID = ''t2'', tc_Name = ''nope'', tc_Arguments = ''{}''\<rparr>"

definition broken_call :: tool_call where
  "broken_call = \<lparr>tc_ID = ''t3'', tc_Name = ''broken'', tc_Arguments = ''{}''\<rparr>"

definition refusing_call :: tool_call where
  "refusing_call = \<lparr>tc_ID = ''t4'', tc_Name = ''refusing'', tc_Arguments = ''{}''\<rparr>"

definition broken_tool :: "string list tool" where
  "broken_tool =
     \<lparr>t_Description = ''breaks'', t_Parameters = ''{}'',
      t_Execute = (\<lambda>args w. (Inl ''pipe closed'', w @ [''broken'']))\<rparr>"

definition refusing_tool :: "string list tool" where
  "refusing_tool =
     \<lparr>t_Description = ''refuses'', t_Parameters = ''{}'',
      t_Execute = (\<lambda>args w. (Inr \<lparr>Output = [], Error = ''permission denied'', IsError = True\<rparr>,
                             w @ [''refused'']))\<rparr>"

text \<open>A working list of six messages.\<close>

definition long_history :: "message list" where
  "long_history =
     [user_msg ''first question'', assistant_msg ''first answer'',
      user_msg ''second question'', assistant_msg ''second answer'',
      user_msg ''third question'', assistant_msg ''third answer'']"

text \<open>
  A provider that asks for four tool calls on its first leg; on its second leg it answers,
  or fails when the world is marked \<open>offline\<close>.  An agent with this provider, three
  tools and a budget of five tool calls, and the state with the mark.
\<close>

definition ask_four :: "string list provider" where
  "ask_four req w =
     (if ''chat'' \<notin> set w then
        (Inr (tool_resp [list_call, missing_call, broken_call, refusing_call]), w @ [''chat''])
      else if ''offline'' \<in> set w then (Inl (OtherError ''down''), w @ [''failed''])
      else (Inr (final_resp ''Done.''), w @ [''chat'']))"

definition tool_agent :: "string list agent" where
  "tool_agent =
     New (cfg0\<lparr>MaxToolCalls := 5\<rparr>) ask_four
       [(''filesystem'', filesystem_tool), (''broken'', broken_tool),
        (''refusing'', refusing_tool)] []"

definition st_offline :: "string list state" where
  "st_offline = st0\<lparr>world := [''offline'']\<rparr>"

section \<open>Example inputs for the tools and the sanitizer\<close>

text \<open>
  A shell tool as \<open>initAgent\<close> builds it, with the sandbox on and the default workspace
  directory of a user whose home is \<open>/home/user\<close>, and \<open>filepath.Abs\<close> in a process
  whose working directory is that home, on the paths the examples use (the empty path
  and paths that are absolute and clean already).
\<close>

definition shell_in_workspace :: ShellTool where
  "shell_in_workspace =
     \<lparr>workspaceDir = ''/home/user/.opendan/workspace'', timeoutSecs = 60,
      maxOutputChars = 10000, sandboxEnabled = True\<rparr>"

definition abs_in_home :: "string \<Rightarrow> string option" where
  "abs_in_home p = (if p = [] then Some ''/home/user'' else Some p)"

text \<open>
  The answers of Go's library on the inputs of the browser examples: one URL parses,
  its host is no IP address, and \<open>ToLower\<close> on ASCII text.
\<close>

definition ascii_lower :: "string \<Rightarrow> string" where
  "ascii_lower s =
     map (\<lambda>c. case map_of (zip upper_chars lower_chars) c of Some l \<Rightarrow> l | None \<Rightarrow> c) s"

definition example_netlib :: "nat netlib" where
  "example_netlib =
     \<lparr>url_Parse = (\<lambda>s. if s = ''https://Docs.Example.com/page''
                         then Inr \<lparr>Scheme = ''https'', Hostname = ''Docs.Example.com''\<rparr>
                         else Inl ''parse error''),
      net_ParseIP = (\<lambda>h. None),
      IsLoopback = (\<lambda>ip. False),
      IsPrivate = (\<lambda>ip. False),
      IsLinkLocalUnicast = (\<lambda>ip. False),
      IsLinkLocalMulticast = (\<lambda>ip. False),
      IsUnspecified = (\<lambda>ip. False),
      strings_ToLower = ascii_lower\<rparr>"

definition example_browser :: BrowserConfig where
  "example_browser =
     \<lparr>b_Enabled = True, Headless = True, b_TimeoutSecs = 30, MaxTabs = 3,
      AllowedDomains = [''example.com''], DeniedDomains = [''evil.com''],
      MaxPageSizeKB = 2048\<rparr>"

text \<open>
  A provider that notes in the world the text of the last message it is sent, a channel
  that notes what it sends, and a sanitizer with the e-mail filter on.
\<close>

definition noting :: "string list provider" where
  "noting req w =
     (Inr (final_resp ''Okay.''),
      w @ [''provider saw: '' @ Content (last (req_Messages req))])"

definition telegram_channel :: "string list channel" where
  "telegram_channel out w = (None, w @ [''sent: '' @ out_Text out])"

definition channel_agent :: "string list agent" where
  "channel_agent = New cfg0 noting [] [(''telegram'', telegram_channel)]"

definition telegram_msg :: InboundMessage where
  "telegram_msg =
     \<lparr>ChannelName = ''telegram'', SenderID = ''42'', SenderName = ''ann'', in_ChatID = ''tg:42'',
      in_Text = ''email me at a@b.com''\<rparr>"

definition email_only :: PIIFilterConfig where
  "email_only =
     \<lparr>Enabled = True, FilterEmails = True, FilterPhones = False, FilterCards = False,
      FilterIPs = False, FilterSSN = False\<rparr>"

section \<open>Notions used in the proofs about the sanitizer\<close>

text \<open>
  The texts a pattern can match, whatever stands around them: the assertions \<open>\b\<close>
  and \<open>^\<close> match the empty text.
\<close>

inductive rx_lang :: "rx \<Rightarrow> string \<Rightarrow> bool" where
  lang_Eps: "rx_lang Eps []"
| lang_Cls: "c \<in> set cs \<Longrightarrow> rx_lang (Cls cs) [c]"
| lang_Any: "c \<noteq> CHR 0x0A \<Longrightarrow> rx_lang AnyButNL [c]"
| lang_WordB: "rx_lang WordB []"
| lang_Bol: "rx_lang Bol []"
| lang_Seq: "rx_lang r1 m1 \<Longrightarrow> rx_lang r2 m2 \<Longrightarrow> rx_lang (Seq r1 r2) (m1 @ m2)"
| lang_Alt1: "rx_lang r1 m \<Longrightarrow> rx_lang (Alt r1 r2) m"
| lang_Alt2: "rx_lang r2 m \<Longrightarrow> rx_lang (Alt r1 r2) m"
| lang_Star0: "rx_lang (Star r) []"
| lang_Star1: "rx_lang r m1 \<Longrightarrow> rx_lang (Star r) m2 \<Longrightarrow> rx_lang (Star r) (m1 @ m2)"

text \<open>Can the byte occur in a text the pattern matches.\<close>

fun rx_uses :: "rx \<Rightarrow> char \<Rightarrow> bool" where
  "rx_uses Eps c = False"
| "rx_uses (Cls cs) c = (c \<in> set cs)"
| "rx_uses AnyButNL c = (c \<noteq> CHR 0x0A)"
| "rx_uses WordB c = False"
| "rx_uses Bol c = False"
| "rx_uses (Seq r1 r2) c = (rx_uses r1 c \<or> rx_uses r2 c)"
| "rx_uses (Alt r1 r2) c = (rx_uses r1 c \<or> rx_uses r2 c)"
| "rx_uses (Star r) c = rx_uses r c"

text \<open>
  A lower bound on the number of bytes satisfying \<open>W\<close> in a text that the pattern
  matches and that consists of bytes satisfying \<open>A\<close> only; \<open>None\<close> when the pattern
  matches no such text.
\<close>

fun rx_min :: "(char \<Rightarrow> bool) \<Rightarrow> (char \<Rightarrow> bool) \<Rightarrow> rx \<Rightarrow> nat option" where
  "rx_min A W Eps = Some 0"
| "rx_min A W (Cls cs) =
     (if list_ex A cs
      then Some (if list_all (\<lambda>c. A c \<longrightarrow> W c) cs then 1 else 0)
      else None)"
| "rx_min A W AnyButNL = Some 0"
| "rx_min A W WordB = Some 0"
| "rx_min A W Bol = Some 0"
| "rx_min A W (Seq r1 r2) =
     (case rx_min A W r1 of
        None \<Rightarrow> None
      | Some a \<Rightarrow> (case rx_min A W r2 of None \<Rightarrow> None | Some b \<Rightarrow> Some (a + b)))"
| "rx_min A W (Alt r1 r2) =
     (case rx_min A W r1 of
        None \<Rightarrow> rx_min A W r2
      | Some a \<Rightarrow> (case rx_min A W r2 of None \<Rightarrow> Some a | Some b \<Rightarrow> Some (min a b)))"
| "rx_min A W (Star r) = Some 0"

text \<open>
  The bytes between the brackets of a placeholder: the prefix of a filter, an underscore
  and a decimal number.
\<close>

definition body_chars :: string where
  "body_chars = upper_chars @ ''_'' @ digit_chars"

definition digits_in :: "string \<Rightarrow> nat" where
  "digits_in m = length (filter (\<lambda>c. c \<in> set digit_chars) m)"

text \<open>
  A pattern is safe for the placeholders when every text it matches is non-empty, has no
  bracket, and, if it consists of placeholder bytes only, has more than four digits.
\<close>

definition pii_safe :: "rx \<Rightarrow> bool" where
  "pii_safe r =
     (\<forall>m. rx_lang r m \<longrightarrow>
        m \<noteq> [] \<and> CHR ''['' \<notin> set m \<and> CHR '']'' \<notin> set m
        \<and> (set m \<subseteq> set body_chars \<longrightarrow> 4 < digits_in m))"

text \<open>The same, as a test on the syntax tree.\<close>

definition pii_safe_test :: "rx \<Rightarrow> bool" where
  "pii_safe_test r =
     (\<not> rx_uses r CHR ''['' \<and> \<not> rx_uses r CHR '']''
      \<and> (case rx_min (\<lambda>c. True) (\<lambda>c. True) r of None \<Rightarrow> True | Some k \<Rightarrow> 0 < k)
      \<and> (case rx_min (\<lambda>c. c \<in> set body_chars) (\<lambda>c. c \<in> set digit_chars) r of
            None \<Rightarrow> True | Some k \<Rightarrow> 4 < k))"

text \<open>
  What \<open>replaceAll\<close> computes, told byte by byte: at an occurrence of \<open>old\<close> write
  \<open>new\<close> and go on after the occurrence, elsewhere copy the byte.
\<close>

fun repl_rec :: "string \<Rightarrow> string \<Rightarrow> string \<Rightarrow> string" where
  "repl_rec old new [] = []"
| "repl_rec old new (c # t) =
     (if prefix old (c # t) then new @ repl_rec old new (drop (length old - 1) t)
      else c # repl_rec old new t)"

text \<open>
  A sanitized text as a list of items: a byte of the input left as it is, or a
  placeholder put for a match.  \<open>flat\<close> is the sanitized text; \<open>full\<close> is the text
  with every placeholder replaced by its original in the map \<open>M\<close>.
\<close>

datatype item = Ch char | Ph string

fun flat :: "item list \<Rightarrow> string" where
  "flat [] = []"
| "flat (Ch c # r) = c # flat r"
| "flat (Ph k # r) = k @ flat r"

fun full :: "(string \<times> string) list \<Rightarrow> item list \<Rightarrow> string" where
  "full M [] = []"
| "full M (Ch c # r) = c # full M r"
| "full M (Ph k # r) = (case map_of M k of Some orig \<Rightarrow> orig | None \<Rightarrow> []) @ full M r"

fun subst :: "string \<Rightarrow> string \<Rightarrow> item list \<Rightarrow> item list" where
  "subst k orig [] = []"
| "subst k orig (Ch c # r) = Ch c # subst k orig r"
| "subst k orig (Ph k' # r) =
     (if k' = k then map Ch orig @ subst k orig r else Ph k' # subst k orig r)"

fun tokens :: "item list \<Rightarrow> string set" where
  "tokens [] = {}"
| "tokens (Ch c # r) = tokens r"
| "tokens (Ph k # r) = insert k (tokens r)"

text \<open>A placeholder has a bracket at each end and none between.\<close>

definition wf_key :: "string \<Rightarrow> bool" where
  "wf_key k = (\<exists>b. k = CHR ''['' # b @ '']'' \<and> CHR ''['' \<notin> set b \<and> CHR '']'' \<notin> set b)"

text \<open>The placeholder that \<open>Sprintf("[%s_%d]", prefix, n)\<close> makes, and the prefixes in use.\<close>

definition placeholder :: "string \<Rightarrow> nat \<Rightarrow> string" where
  "placeholder pfx n = ''['' @ pfx @ ''_'' @ itoa n @ '']''"

definition prefixes :: "string list" where
  "prefixes = map f_prefix defaultFilters"

text \<open>The number a decimal numeral stands for.\<close>

definition digit_val :: "char \<Rightarrow> nat" where
  "digit_val c = length (takeWhile (\<lambda>d. d \<noteq> c) digit_chars)"

definition dec_val :: "string \<Rightarrow> nat" where
  "dec_val ds = foldl (\<lambda>a c. 10 * a + digit_val c) 0 ds"

text \<open>
  What holds of the sanitizer at every moment: no placeholder and no original is in the
  map twice; every placeholder is made of a prefix in use and a number from 1 up to the
  counter of that prefix; no counter exceeds the size of the map; the filters are among
  the five.
\<close>

definition san_inv :: "Sanitizer \<Rightarrow> bool" where
  "san_inv s =
     (distinct (map fst (mappings s)) \<and> distinct (map snd (mappings s))
      \<and> (\<forall>(k, orig) \<in> set (mappings s).
            \<exists>pfx n. pfx \<in> set prefixes \<and> 0 < n \<and> n \<le> counter s pfx \<and> k = placeholder pfx n)
      \<and> (\<forall>pfx. counter s pfx \<le> length (mappings s))
      \<and> set (filters s) \<subseteq> set defaultFilters)"

text \<open>From one moment to a later one the map only gains entries.\<close>

definition grows :: "Sanitizer \<Rightarrow> Sanitizer \<Rightarrow> bool" where
  "grows s s' =
     (san_inv s' \<and> set (mappings s) \<subseteq> set (mappings s') \<and> filters s' = filters s
      \<and> enabled s' = enabled s)"

text \<open>
  A placeholder whose number has at most four digits: between its brackets stand
  placeholder bytes only, at most four of them digits.
\<close>

definition good_key :: "string \<Rightarrow> bool" where
  "good_key k =
     (\<exists>b. k = CHR ''['' # b @ '']'' \<and> set b \<subseteq> set body_chars \<and> digits_in b \<le> 4)"

text \<open>
  The states a sanitizer can be in: as created, after a call of \<open>Sanitize\<close> or
  \<open>Reset\<close>, and, inside a call of \<open>Sanitize\<close>, after the replacement of a match by
  one of its filters.
\<close>

inductive reachable :: "Sanitizer \<Rightarrow> bool" where
  reach_New: "reachable (NewSanitizer c)"
| reach_Sanitize: "reachable s \<Longrightarrow> reachable (snd (Sanitize s x))"
| reach_Reset: "reachable s \<Longrightarrow> reachable (Reset s)"
| reach_match: "reachable s \<Longrightarrow> f \<in> set (filters s) \<Longrightarrow>
     reachable (snd (sanitize_match (f_prefix f) m s))"

section \<open>Fallback chain: proofs\<close>

lemma isRetryable_iff: "isRetryable err = (\<not> terminal_error err)"
  by (auto simp: isRetryable_def terminal_error_def split: option.splits)

lemma Chat_loop_spec:
  "Chat_loop ps lastErr req w = (if ps = [] then (Inl lastErr, w) else fallback_spec ps req w)"
proof (induction ps arbitrary: lastErr w)
  case Nil
  show ?case by simp
next
  case (Cons p ps)
  show ?case
    by (cases "p req w"; cases "fst (p req w)") (auto simp: Cons isRetryable_iff)
qed

text \<open>
  C2.  For every list of providers, every request and every state of the world, the
  fallback chain's \<open>Chat\<close> does what the specification's rule says: providers are tried
  in order; a response ends the search; an error classified \<open>Auth\<close> or \<open>InvalidInput\<close>
  is returned at once and no later provider is called (the world is the one the failing
  provider left); any other error (the other five classes, an unknown class, or an error
  that is no \<open>LLMError\<close>) moves on to the next provider; when all fail the last error is
  returned.
\<close>

theorem fallback_chat_follows_spec:
  "FallbackProvider_Chat providers req w = fallback_spec providers req w"
  by (cases providers) (simp_all add: FallbackProvider_Chat_def Chat_loop_spec)

theorem fallback_chat_follows_spec_witness:
  "FallbackProvider_Chat [failing (LLMError ErrorRateLimit ''429'' None), greeter] req0 []
     = (Inr (final_resp ''Hi there!''), [''failed'', ''chat''])
   \<and> FallbackProvider_Chat [failing (LLMError ErrorAuth ''401 unauthorized'' None), greeter] req0 []
     = (Inl (Some (LLMError ErrorAuth ''401 unauthorized'' None)), [''failed''])
   \<and> FallbackProvider_Chat [failing (OtherError ''boom''), failing (LLMError ErrorTimeout ''timeout'' None)] req0 []
     = (Inl (Some (LLMError ErrorTimeout ''timeout'' None)), [''failed'', ''failed''])"
  using fallback_chat_follows_spec [of "[failing (LLMError ErrorRateLimit ''429'' None), greeter]" req0 "[]"]
        fallback_chat_follows_spec [of "[failing (LLMError ErrorAuth ''401 unauthorized'' None), greeter]" req0 "[]"]
        fallback_chat_follows_spec [of "[failing (OtherError ''boom''), failing (LLMError ErrorTimeout ''timeout'' None)]" req0 "[]"]
  by (simp add: failing_def greeter_def terminal_error_def ErrorAuth_def ErrorInvalidInput_def
        ErrorRateLimit_def ErrorTimeout_def)

section \<open>Agent loop: proofs\<close>

lemma summarize_step_frame:
  "summarize_step a chatID messages st = (messages1, st1) \<Longrightarrow>
     rows (mem st1) = rows (mem st) \<and> published st1 = published st"
  by (auto simp: summarize_step_def SaveSummary_def split: if_splits prod.splits)

lemma execute_call_spec:
  "execute_call reg tc w = (result_text reg tc w, world_after reg tc w)"
  by (auto simp: execute_call_def result_text_def world_after_def Registry_Get_def
           split: option.splits prod.splits sum.splits)

lemma run_tool_calls_spec:
  "run_tool_calls reg tcs messages st =
     (messages @ tool_messages reg tcs (world st),
      st\<lparr>world := foldl (\<lambda>w tc. world_after reg tc w) (world st) tcs,
         published := published st @ tool_events tcs (tool_messages reg tcs (world st))\<rparr>)"
proof (induction tcs arbitrary: messages st)
  case Nil
  show ?case by simp
next
  case (Cons tc tcs)
  show ?case
    by (simp add: Cons execute_call_spec Let_def Publish_def)
qed

lemma agent_loop_post:
  "agent_loop a chatID messages toolCallCount st = (res, st') \<Longrightarrow>
     (\<exists>es. published st' = published st
              @ llm_request (chat_req a (fst (summarize_step a chatID messages st))) # es)
     \<and> (case res of
          Inr text \<Rightarrow>
            rows (mem st') = rows (mem st) @ [(chatID, assistant_msg text)]
            \<and> (\<exists>resp. last (published st') = llm_response_ev resp
                  \<and> (if resp_ToolCalls resp = [] then text = resp_Content resp
                      else text = truncation_msg (resp_Content resp)))
        | Inl e \<Rightarrow>
            rows (mem st') = rows (mem st)
            \<and> (\<exists>pe req w w'. provider a req w = (Inl pe, w') \<and> e = WrapError ''LLM error: '' pe))"
proof (induction a chatID messages toolCallCount st arbitrary: res st' rule: agent_loop.induct)
  case (1 a chatID messages toolCallCount st)
  obtain messages1 st1 where s1: "summarize_step a chatID messages st = (messages1, st1)"
    by (cases "summarize_step a chatID messages st")
  note r1 = summarize_step_frame [OF s1]
  let ?st2 = "Publish (llm_request (chat_req a messages1)) st1"
  obtain out w' where p: "provider a (chat_req a messages1) (world ?st2) = (out, w')"
    by (cases "provider a (chat_req a messages1) (world ?st2)")
  show ?case
  proof (cases out)
    case (Inl err)
    have "res = Inl (WrapError ''LLM error: '' err)" "st' = ?st2\<lparr>world := w'\<rparr>"
      using "1.prems" s1 p Inl
      by (subst (asm) agent_loop.simps, simp add: Let_def)+
    then show ?thesis
      using s1 p r1 Inl by (auto simp: Publish_def)
  next
    case (Inr resp)
    let ?st3 = "Publish (llm_response_ev resp) (?st2\<lparr>world := w'\<rparr>)"
    let ?am = "\<lparr>Role = ''assistant'', Content = resp_Content resp,
                ToolCalls = resp_ToolCalls resp, ToolCallID = []\<rparr>"
    have m3: "rows (mem ?st3) = rows (mem st)"
      by (simp add: Publish_def r1)
    have p3: "published ?st3 = published st
                @ [llm_request (chat_req a messages1), llm_response_ev resp]"
      by (simp add: Publish_def r1)
    show ?thesis
    proof (cases "length (resp_ToolCalls resp) = 0")
      case True
      have "res = Inr (resp_Content resp)"
           "st' = ?st3\<lparr>mem := SaveMessage chatID (assistant_msg (resp_Content resp)) (mem ?st3)\<rparr>"
        using "1.prems" s1 p Inr True
        by (subst (asm) agent_loop.simps, simp add: Let_def)+
      then show ?thesis
        using s1 m3 p3 True by (auto simp: SaveMessage_def)
    next
      case False
      note nz = False
      show ?thesis
      proof (cases "MaxToolCalls (cfg a) < toolCallCount + int (length (resp_ToolCalls resp))")
        case True
        have "res = Inr (truncation_msg (resp_Content resp))"
             "st' = ?st3\<lparr>mem := SaveMessage chatID
                       (assistant_msg (truncation_msg (resp_Content resp))) (mem ?st3)\<rparr>"
          using "1.prems" s1 p Inr nz True
          by (subst (asm) agent_loop.simps, simp add: Let_def)+
        then show ?thesis
          using s1 m3 p3 nz by (auto simp: SaveMessage_def)
      next
        case False
        obtain messages2 st4 where t: "run_tool_calls (tools a) (resp_ToolCalls resp)
            (messages1 @ [?am]) ?st3 = (messages2, st4)"
          by (cases "run_tool_calls (tools a) (resp_ToolCalls resp) (messages1 @ [?am]) ?st3")
        have m4: "rows (mem st4) = rows (mem st)"
          using t m3 by (auto simp: run_tool_calls_spec)
        obtain es4 where p4: "published st4 = published st
                @ llm_request (chat_req a messages1) # es4"
          using t p3 by (auto simp: run_tool_calls_spec)
        have rec: "agent_loop a chatID messages2
                     (toolCallCount + int (length (resp_ToolCalls resp))) st4 = (res, st')"
          using "1.prems" s1 p Inr nz False t
          by (subst (asm) agent_loop.simps) (auto simp: Let_def)
        note ih = "1.IH" [OF s1 [symmetric] refl refl p [symmetric] Inr refl nz refl False refl
                t [symmetric] rec]
        from ih obtain es where es: "published st' = published st4
              @ llm_request (chat_req a (fst (summarize_step a chatID messages2 st4))) # es"
          by blast
        have first: "\<exists>es. published st' = published st
              @ llm_request (chat_req a (fst (summarize_step a chatID messages st))) # es"
          using es p4 s1 by simp
        from ih have "case res of
            Inr text \<Rightarrow>
              rows (mem st') = rows (mem st4) @ [(chatID, assistant_msg text)]
              \<and> (\<exists>resp. last (published st') = llm_response_ev resp
                    \<and> (if resp_ToolCalls resp = [] then text = resp_Content resp
                        else text = truncation_msg (resp_Content resp)))
          | Inl e \<Rightarrow>
              rows (mem st') = rows (mem st4)
              \<and> (\<exists>pe req w w'. provider a req w = (Inl pe, w') \<and> e = WrapError ''LLM error: '' pe)"
          by blast
        then show ?thesis
          unfolding m4 using first by blast
      qed
    qed
  qed
qed

lemma calls_observed_append [simp]:
  "calls_observed (xs @ ys) = calls_observed xs + calls_observed ys"
  by (induction xs rule: calls_observed.induct) auto

lemma calls_executed_append [simp]:
  "calls_executed (xs @ ys) = calls_executed xs + calls_executed ys"
  by (induction xs rule: calls_executed.induct) auto

lemma tool_events_counts:
  "calls_observed (tool_events tcs (tool_messages reg tcs w)) = 0
   \<and> calls_executed (tool_events tcs (tool_messages reg tcs w)) = length tcs
   \<and> llm_response_ev resp \<notin> set (tool_events tcs (tool_messages reg tcs w))"
  by (induction tcs arbitrary: w) auto

lemma split_after_prefix:
  assumes "before @ x # after = T @ E" and "x \<notin> set T"
  shows "\<exists>before'. before = T @ before' \<and> E = before' @ x # after"
  using assms
proof (induction T arbitrary: before)
  case Nil
  then show ?case by simp
next
  case (Cons t T)
  then obtain before1 where b: "before = t # before1" "before1 @ x # after = T @ E"
    by (cases before) auto
  from Cons.IH [OF b(2)] Cons.prems(2) show ?case
    using b(1) by auto
qed

lemma agent_loop_budget:
  "agent_loop a chatID messages toolCallCount st = (res, st') \<Longrightarrow>
   published st' = published st @ before @ llm_response_ev resp # after \<Longrightarrow>
   resp_ToolCalls resp \<noteq> [] \<Longrightarrow>
   MaxToolCalls (cfg a) < toolCallCount + int (calls_observed (before @ [llm_response_ev resp])) \<Longrightarrow>
   after = [] \<and> res = Inr (truncation_msg (resp_Content resp))
   \<and> rows (mem st') = rows (mem st) @ [(chatID, assistant_msg (truncation_msg (resp_Content resp)))]
   \<and> calls_executed before = calls_observed before
   \<and> (\<exists>req w. provider a req w = (Inr resp, world st'))"
proof (induction a chatID messages toolCallCount st arbitrary: res st' before
       rule: agent_loop.induct)
  case (1 a chatID messages toolCallCount st)
  note run = "1.prems"(1) and pub = "1.prems"(2) and tc = "1.prems"(3) and over = "1.prems"(4)
  obtain messages1 st1 where s1: "summarize_step a chatID messages st = (messages1, st1)"
    by (cases "summarize_step a chatID messages st")
  note r1 = summarize_step_frame [OF s1]
  let ?req = "llm_request (chat_req a messages1)"
  let ?st2 = "Publish ?req st1"
  obtain out w' where p: "provider a (chat_req a messages1) (world ?st2) = (out, w')"
    by (cases "provider a (chat_req a messages1) (world ?st2)")
  show ?case
  proof (cases out)
    case (Inl err)
    have "st' = ?st2\<lparr>world := w'\<rparr>"
      using run s1 p Inl by (subst (asm) agent_loop.simps) (simp add: Let_def)
    then have "before @ llm_response_ev resp # after = [?req]"
      using pub r1 by (simp add: Publish_def)
    then show ?thesis
      by (simp add: append_eq_Cons_conv)
  next
    case (Inr r)
    let ?st3 = "Publish (llm_response_ev r) (?st2\<lparr>world := w'\<rparr>)"
    let ?am = "\<lparr>Role = ''assistant'', Content = resp_Content r,
                ToolCalls = resp_ToolCalls r, ToolCallID = []\<rparr>"
    have m3: "rows (mem ?st3) = rows (mem st)"
      by (simp add: Publish_def r1)
    have p3: "published ?st3 = published st @ [?req, llm_response_ev r]"
      by (simp add: Publish_def r1)
    have w3: "world ?st3 = w'"
      by (simp add: Publish_def)
    have two: "before = [?req] \<and> resp = r \<and> after = []"
      if "before @ llm_response_ev resp # after = [?req, llm_response_ev r]"
      using that by (auto simp: append_eq_Cons_conv Cons_eq_append_conv)
    show ?thesis
    proof (cases "length (resp_ToolCalls r) = 0")
      case True
      have "st' = ?st3\<lparr>mem := SaveMessage chatID (assistant_msg (resp_Content r)) (mem ?st3)\<rparr>"
        using run s1 p Inr True by (subst (asm) agent_loop.simps) (simp add: Let_def)
      then have "before @ llm_response_ev resp # after = [?req, llm_response_ev r]"
        using pub p3 by simp
      from two [OF this] show ?thesis
        using True tc by simp
    next
      case False
      note nz = False
      show ?thesis
      proof (cases "MaxToolCalls (cfg a) < toolCallCount + int (length (resp_ToolCalls r))")
        case True
        have res: "res = Inr (truncation_msg (resp_Content r))"
          and st': "st' = ?st3\<lparr>mem := SaveMessage chatID
                       (assistant_msg (truncation_msg (resp_Content r))) (mem ?st3)\<rparr>"
          using run s1 p Inr nz True
          by (subst (asm) agent_loop.simps, simp add: Let_def)+
        have "before @ llm_response_ev resp # after = [?req, llm_response_ev r]"
          using pub p3 st' by simp
        from two [OF this] have b: "before = [?req]" "resp = r" "after = []"
          by simp_all
        have "provider a (chat_req a messages1) (world ?st2) = (Inr resp, world st')"
          using p Inr b(2) st' w3 by simp
        then have "\<exists>req w. provider a req w = (Inr resp, world st')"
          by blast
        then show ?thesis
          using b res st' m3 by (simp add: SaveMessage_def)
      next
        case False
        let ?T = "tool_events (resp_ToolCalls r) (tool_messages (tools a) (resp_ToolCalls r) w')"
        obtain messages2 st4 where t: "run_tool_calls (tools a) (resp_ToolCalls r)
            (messages1 @ [?am]) ?st3 = (messages2, st4)"
          by (cases "run_tool_calls (tools a) (resp_ToolCalls r) (messages1 @ [?am]) ?st3")
        have m4: "rows (mem st4) = rows (mem st)"
          using t m3 by (auto simp: run_tool_calls_spec)
        have p4: "published st4 = published st @ [?req, llm_response_ev r] @ ?T"
          using t p3 w3 by (auto simp: run_tool_calls_spec)
        have rec: "agent_loop a chatID messages2
                     (toolCallCount + int (length (resp_ToolCalls r))) st4 = (res, st')"
          using run s1 p Inr nz False t
          by (subst (asm) agent_loop.simps) (auto simp: Let_def)
        obtain E' where E': "published st' = published st4 @ E'"
          using agent_loop_post [OF rec] by blast
        have eq: "before @ llm_response_ev resp # after = ?req # llm_response_ev r # ?T @ E'"
          using pub E' p4 by simp
        then obtain before1 where b1: "before = ?req # before1"
            "before1 @ llm_response_ev resp # after = llm_response_ev r # ?T @ E'"
          by (cases before) auto
        have "before1 \<noteq> []"
        proof
          assume "before1 = []"
          then have "resp = r" "before = [?req]"
            using b1 by simp_all
          then show False
            using over False by simp
        qed
        then obtain before2 where b2: "before1 = llm_response_ev r # before2"
            "before2 @ llm_response_ev resp # after = ?T @ E'"
          using b1(2) by (cases before1) auto
        note cnt = tool_events_counts [of "resp_ToolCalls r" "tools a" w' resp]
        from split_after_prefix [OF b2(2)] cnt
        obtain before' where b': "before2 = ?T @ before'"
            "E' = before' @ llm_response_ev resp # after"
          by blast
        have bf: "before = ?req # llm_response_ev r # ?T @ before'"
          using b1(1) b2(1) b'(1) by simp
        have pub': "published st' = published st4 @ before' @ llm_response_ev resp # after"
          using E' b'(2) by simp
        have over': "MaxToolCalls (cfg a)
                       < toolCallCount + int (length (resp_ToolCalls r))
                         + int (calls_observed (before' @ [llm_response_ev resp]))"
          using over cnt unfolding bf by simp
        note ih = "1.IH" [OF s1 [symmetric] refl refl p [symmetric] Inr refl nz refl False refl
                t [symmetric] rec pub' tc over']
        have "calls_executed before = calls_observed before"
          using ih cnt unfolding bf by simp
        then show ?thesis
          using ih unfolding m4 by blast
      qed
    qed
  qed
qed

lemma agent_loop_step:
  assumes "summarize_step a chatID messages st = (messages1, st1)"
      and "provider a (chat_req a messages1) (world st1) = (Inr resp, w')"
      and "resp_ToolCalls resp \<noteq> []"
      and "toolCallCount + int (length (resp_ToolCalls resp)) \<le> MaxToolCalls (cfg a)"
  shows "agent_loop a chatID messages toolCallCount st =
           agent_loop a chatID
             (messages1
                @ [\<lparr>Role = ''assistant'', Content = resp_Content resp,
                     ToolCalls = resp_ToolCalls resp, ToolCallID = []\<rparr>]
                @ tool_messages (tools a) (resp_ToolCalls resp) w')
             (toolCallCount + int (length (resp_ToolCalls resp)))
             (st1\<lparr>world := foldl (\<lambda>w tc. world_after (tools a) tc w) w' (resp_ToolCalls resp),
                  published := published st1
                     @ [llm_request (chat_req a messages1), llm_response_ev resp]
                     @ tool_events (resp_ToolCalls resp)
                         (tool_messages (tools a) (resp_ToolCalls resp) w')\<rparr>)"
  using assms
  by (subst agent_loop.simps) (simp add: Let_def Publish_def run_tool_calls_spec)

text \<open>
  C1.  When a turn completes (\<open>processMessage\<close> returns a response, not a provider
  error), the conversation store has gained exactly two rows for the chat: the user
  message, stored at the start of the turn, and one assistant message, whose text is the
  returned text.  That text is the content of the last provider response when it carried
  no tool calls, and the truncation message when it did (budget exhaustion).  Nothing else
  is stored: the assistant messages that carry tool calls and the \<open>tool\<close> messages live
  only in the working list.
\<close>

theorem one_assistant_message_per_turn:
  assumes "processMessage a chatID userText st = (Inr text, st')"
  shows "rows (mem st') = rows (mem st) @ [(chatID, user_msg userText), (chatID, assistant_msg text)]
         \<and> (\<exists>resp. last (published st') = llm_response_ev resp
               \<and> (if resp_ToolCalls resp = [] then text = resp_Content resp
                   else text = truncation_msg (resp_Content resp)))"
  using agent_loop_post [OF assms [unfolded processMessage_def Let_def]]
  by (simp add: SaveMessage_def)

theorem one_assistant_message_per_turn_witness:
  "processMessage (agent_of two_leg) ''c1'' ''what is in the workspace'' st0
     = (Inr ''I see a.txt and sub/.'',
        snd (processMessage (agent_of two_leg) ''c1'' ''what is in the workspace'' st0))
   \<and> rows (mem (snd (processMessage (agent_of two_leg) ''c1'' ''what is in the workspace'' st0)))
     = [(''c1'', user_msg ''what is in the workspace''),
        (''c1'', assistant_msg ''I see a.txt and sub/.'')]"
proof -
  have f: "fst (processMessage (agent_of two_leg) ''c1'' ''what is in the workspace'' st0)
             = Inr ''I see a.txt and sub/.''"
    by code_simp
  have h: "processMessage (agent_of two_leg) ''c1'' ''what is in the workspace'' st0
     = (Inr ''I see a.txt and sub/.'',
        snd (processMessage (agent_of two_leg) ''c1'' ''what is in the workspace'' st0))"
    using f by (simp add: prod_eq_iff)
  show ?thesis
    using h one_assistant_message_per_turn [OF h] by (simp add: st0_def)
qed

text \<open>
  C6.  In a loop iteration whose response carries tool calls within the budget, the loop
  goes on with the working list it sent, then the assistant message that carries the
  calls, then one message of role \<open>tool\<close> per call, in the order the provider returned
  the calls; these messages are what the next request is built from.  The message of a
  call has the call's id as \<open>tool_call_id\<close>, and as content the result text of the
  specification: \<open>Error: tool '<name>' not found\<close> when the registry has no such tool,
  \<open>Error executing tool: \<close> and the error when \<open>Execute\<close> fails, \<open>Error: \<close> and the
  result's error when the result has \<open>IsError\<close>, the output otherwise; each call runs
  in the world the call before it left.  The two events of each call are published in the
  same order, the count of tool calls grows by the number of calls, and the store is not
  touched.  An error that \<open>processMessage\<close> returns is always a provider's error wrapped
  as \<open>LLM error: ...\<close>, never a tool failure.
\<close>

theorem tool_calls_in_order_never_raised:
  assumes "summarize_step a chatID messages st = (messages1, st1)"
      and "provider a (chat_req a messages1) (world st1) = (Inr resp, w')"
      and "resp_ToolCalls resp \<noteq> []"
      and "toolCallCount + int (length (resp_ToolCalls resp)) \<le> MaxToolCalls (cfg a)"
  shows "agent_loop a chatID messages toolCallCount st =
           agent_loop a chatID
             (messages1
                @ [\<lparr>Role = ''assistant'', Content = resp_Content resp,
                     ToolCalls = resp_ToolCalls resp, ToolCallID = []\<rparr>]
                @ tool_messages (tools a) (resp_ToolCalls resp) w')
             (toolCallCount + int (length (resp_ToolCalls resp)))
             (st1\<lparr>world := foldl (\<lambda>w tc. world_after (tools a) tc w) w' (resp_ToolCalls resp),
                  published := published st1
                     @ [llm_request (chat_req a messages1), llm_response_ev resp]
                     @ tool_events (resp_ToolCalls resp)
                         (tool_messages (tools a) (resp_ToolCalls resp) w')\<rparr>)
         \<and> map ToolCallID (tool_messages (tools a) (resp_ToolCalls resp) w')
             = map tc_ID (resp_ToolCalls resp)
         \<and> (\<forall>chatID' userText s e. fst (processMessage a chatID' userText s) = Inl e \<longrightarrow>
               (\<exists>pe req w w'. provider a req w = (Inl pe, w') \<and> e = WrapError ''LLM error: '' pe))"
proof -
  have "\<exists>pe req w w'. provider a req w = (Inl pe, w') \<and> e = WrapError ''LLM error: '' pe"
    if "fst (processMessage a chatID' userText s) = Inl e" for chatID' userText s e
  proof -
    have "processMessage a chatID' userText s = (Inl e, snd (processMessage a chatID' userText s))"
      using that by (simp add: prod_eq_iff)
    from agent_loop_post [OF this [unfolded processMessage_def Let_def]]
    show ?thesis by simp
  qed
  moreover have "map ToolCallID (tool_messages reg tcs w) = map tc_ID tcs" for reg tcs
      and w :: 'a
    by (induction tcs arbitrary: w) auto
  ultimately show ?thesis
    using agent_loop_step [OF assms] by blast
qed

theorem tool_calls_in_order_never_raised_witness:
  "summarize_step tool_agent ''c1'' [user_msg ''Hello''] st0 = ([user_msg ''Hello''], st0)
   \<and> provider tool_agent (chat_req tool_agent [user_msg ''Hello'']) (world st0)
       = (Inr (tool_resp [list_call, missing_call, broken_call, refusing_call]), [''chat''])
   \<and> 0 + int (length (resp_ToolCalls (tool_resp [list_call, missing_call, broken_call, refusing_call])))
       \<le> MaxToolCalls (cfg tool_agent)
   \<and> agent_loop tool_agent ''c1'' [user_msg ''Hello''] 0 st0
       = agent_loop tool_agent ''c1''
           [user_msg ''Hello'',
            \<lparr>Role = ''assistant'', Content = ''Let me look.'',
             ToolCalls = [list_call, missing_call, broken_call, refusing_call], ToolCallID = []\<rparr>,
            \<lparr>Role = ''tool'', Content = ''  a.txt'', ToolCalls = [], ToolCallID = ''t1''\<rparr>,
            \<lparr>Role = ''tool'',
             Content = ''Error: tool '' @ [CHR 0x27] @ ''nope'' @ [CHR 0x27] @ '' not found'',
             ToolCalls = [], ToolCallID = ''t2''\<rparr>,
            \<lparr>Role = ''tool'', Content = ''Error executing tool: pipe closed'', ToolCalls = [],
             ToolCallID = ''t3''\<rparr>,
            \<lparr>Role = ''tool'', Content = ''Error: permission denied'', ToolCalls = [],
             ToolCallID = ''t4''\<rparr>]
           4
           \<lparr>world = [''chat'', ''tool'', ''broken'', ''refused''], mem = mem st0,
            published =
              [llm_request (chat_req tool_agent [user_msg ''Hello'']),
               llm_response_ev (tool_resp [list_call, missing_call, broken_call, refusing_call]),
               tool_call_ev list_call, tool_result_ev ''t1'' ''  a.txt'',
               tool_call_ev missing_call,
               tool_result_ev ''t2''
                 (''Error: tool '' @ [CHR 0x27] @ ''nope'' @ [CHR 0x27] @ '' not found''),
               tool_call_ev broken_call, tool_result_ev ''t3'' ''Error executing tool: pipe closed'',
               tool_call_ev refusing_call, tool_result_ev ''t4'' ''Error: permission denied'']\<rparr>
   \<and> processMessage tool_agent ''c1'' ''Hello'' st0
       = (Inr ''Done.'',
          \<lparr>world = [''chat'', ''tool'', ''broken'', ''refused'', ''chat''],
           mem = \<lparr>rows = [(''c1'', user_msg ''Hello''), (''c1'', assistant_msg ''Done.'')],
                  summaries = (\<lambda>c. None)\<rparr>,
           published =
              [llm_request (chat_req tool_agent [user_msg ''Hello'']),
               llm_response_ev (tool_resp [list_call, missing_call, broken_call, refusing_call]),
               tool_call_ev list_call, tool_result_ev ''t1'' ''  a.txt'',
               tool_call_ev missing_call,
               tool_result_ev ''t2''
                 (''Error: tool '' @ [CHR 0x27] @ ''nope'' @ [CHR 0x27] @ '' not found''),
               tool_call_ev broken_call, tool_result_ev ''t3'' ''Error executing tool: pipe closed'',
               tool_call_ev refusing_call, tool_result_ev ''t4'' ''Error: permission denied'',
               llm_request (chat_req tool_agent
           [user_msg ''Hello'',
            \<lparr>Role = ''assistant'', Content = ''Let me look.'',
             ToolCalls = [list_call, missing_call, broken_call, refusing_call], ToolCallID = []\<rparr>,
            \<lparr>Role = ''tool'', Content = ''  a.txt'', ToolCalls = [], ToolCallID = ''t1''\<rparr>,
            \<lparr>Role = ''tool'',
             Content = ''Error: tool '' @ [CHR 0x27] @ ''nope'' @ [CHR 0x27] @ '' not found'',
             ToolCalls = [], ToolCallID = ''t2''\<rparr>,
            \<lparr>Role = ''tool'', Content = ''Error executing tool: pipe closed'', ToolCalls = [],
             ToolCallID = ''t3''\<rparr>,
            \<lparr>Role = ''tool'', Content = ''Error: permission denied'', ToolCalls = [],
             ToolCallID = ''t4''\<rparr>]),
               llm_response_ev (final_resp ''Done.'')]\<rparr>)
   \<and> fst (processMessage tool_agent ''c1'' ''Hello'' st_offline)
       = Inl (WrapError ''LLM error: '' (OtherError ''down''))"
proof -
  let ?tcs = "[list_call, missing_call, broken_call, refusing_call]"
  have h1: "summarize_step tool_agent ''c1'' [user_msg ''Hello''] st0 = ([user_msg ''Hello''], st0)"
    by (simp add: summarize_step_def shouldSummarize_def estimateTokens_def tool_agent_def New_def
          newContextManager_def cfg0_def user_msg_def)
  have h2: "provider tool_agent (chat_req tool_agent [user_msg ''Hello'']) (world st0)
       = (Inr (tool_resp ?tcs), [''chat''])"
    by (simp add: tool_agent_def New_def ask_four_def st0_def)
  have h3: "resp_ToolCalls (tool_resp ?tcs) \<noteq> []"
    by (simp add: tool_resp_def)
  have h4: "0 + int (length (resp_ToolCalls (tool_resp ?tcs))) \<le> MaxToolCalls (cfg tool_agent)"
    by (simp add: tool_agent_def New_def cfg0_def tool_resp_def)
  have tm: "tool_messages (tools tool_agent) ?tcs [''chat'']
       = [\<lparr>Role = ''tool'', Content = ''  a.txt'', ToolCalls = [], ToolCallID = ''t1''\<rparr>,
          \<lparr>Role = ''tool'',
           Content = ''Error: tool '' @ [CHR 0x27] @ ''nope'' @ [CHR 0x27] @ '' not found'',
           ToolCalls = [], ToolCallID = ''t2''\<rparr>,
          \<lparr>Role = ''tool'', Content = ''Error executing tool: pipe closed'', ToolCalls = [],
           ToolCallID = ''t3''\<rparr>,
          \<lparr>Role = ''tool'', Content = ''Error: permission denied'', ToolCalls = [],
           ToolCallID = ''t4''\<rparr>]"
    by (simp add: tool_agent_def New_def result_text_def world_after_def list_call_def
          missing_call_def broken_call_def refusing_call_def filesystem_tool_def broken_tool_def
          refusing_tool_def)
  have wa: "foldl (\<lambda>w tc. world_after (tools tool_agent) tc w) [''chat''] ?tcs
       = [''chat'', ''tool'', ''broken'', ''refused'']"
    by (simp add: tool_agent_def New_def world_after_def list_call_def
          missing_call_def broken_call_def refusing_call_def filesystem_tool_def broken_tool_def
          refusing_tool_def)
  have ok: "processMessage tool_agent ''c1'' ''Hello'' st0
       = (Inr ''Done.'',
          \<lparr>world = [''chat'', ''tool'', ''broken'', ''refused'', ''chat''],
           mem = \<lparr>rows = [(''c1'', user_msg ''Hello''), (''c1'', assistant_msg ''Done.'')],
                  summaries = (\<lambda>c. None)\<rparr>,
           published =
              [llm_request (chat_req tool_agent [user_msg ''Hello'']),
               llm_response_ev (tool_resp [list_call, missing_call, broken_call, refusing_call]),
               tool_call_ev list_call, tool_result_ev ''t1'' ''  a.txt'',
               tool_call_ev missing_call,
               tool_result_ev ''t2''
                 (''Error: tool '' @ [CHR 0x27] @ ''nope'' @ [CHR 0x27] @ '' not found''),
               tool_call_ev broken_call, tool_result_ev ''t3'' ''Error executing tool: pipe closed'',
               tool_call_ev refusing_call, tool_result_ev ''t4'' ''Error: permission denied'',
               llm_request (chat_req tool_agent
           [user_msg ''Hello'',
            \<lparr>Role = ''assistant'', Content = ''Let me look.'',
             ToolCalls = [list_call, missing_call, broken_call, refusing_call], ToolCallID = []\<rparr>,
            \<lparr>Role = ''tool'', Content = ''  a.txt'', ToolCalls = [], ToolCallID = ''t1''\<rparr>,
            \<lparr>Role = ''tool'',
             Content = ''Error: tool '' @ [CHR 0x27] @ ''nope'' @ [CHR 0x27] @ '' not found'',
             ToolCalls = [], ToolCallID = ''t2''\<rparr>,
            \<lparr>Role = ''tool'', Content = ''Error executing tool: pipe closed'', ToolCalls = [],
             ToolCallID = ''t3''\<rparr>,
            \<lparr>Role = ''tool'', Content = ''Error: permission denied'', ToolCalls = [],
             ToolCallID = ''t4''\<rparr>]),
               llm_response_ev (final_resp ''Done.'')]\<rparr>)"
    apply (simp add: processMessage_def summarize_step_def shouldSummarize_def estimateTokens_def
          tool_agent_def New_def newContextManager_def cfg0_def user_msg_def assistant_msg_def
          chat_req_def ask_four_def tool_resp_def final_resp_def list_call_def missing_call_def
          broken_call_def refusing_call_def Publish_def execute_call_def Registry_Get_def
          filesystem_tool_def broken_tool_def refusing_tool_def SaveMessage_def GetHistory_def
          GetSummary_def build_messages_def st0_def st_offline_def Let_def Definitions_def)
    apply (subst agent_loop.simps)
    apply (simp add: summarize_step_def shouldSummarize_def estimateTokens_def
          tool_agent_def New_def newContextManager_def cfg0_def user_msg_def assistant_msg_def
          chat_req_def ask_four_def tool_resp_def final_resp_def list_call_def missing_call_def
          broken_call_def refusing_call_def Publish_def execute_call_def Registry_Get_def
          filesystem_tool_def broken_tool_def refusing_tool_def SaveMessage_def GetHistory_def
          GetSummary_def build_messages_def st0_def st_offline_def Let_def Definitions_def)
    apply (subst agent_loop.simps)
    apply (simp add: summarize_step_def shouldSummarize_def estimateTokens_def
          tool_agent_def New_def newContextManager_def cfg0_def user_msg_def assistant_msg_def
          chat_req_def ask_four_def tool_resp_def final_resp_def list_call_def missing_call_def
          broken_call_def refusing_call_def Publish_def execute_call_def Registry_Get_def
          filesystem_tool_def broken_tool_def refusing_tool_def SaveMessage_def GetHistory_def
          GetSummary_def build_messages_def st0_def st_offline_def Let_def Definitions_def)
    done
  have off: "fst (processMessage tool_agent ''c1'' ''Hello'' st_offline)
       = Inl (WrapError ''LLM error: '' (OtherError ''down''))"
    apply (simp add: processMessage_def summarize_step_def shouldSummarize_def estimateTokens_def
          tool_agent_def New_def newContextManager_def cfg0_def user_msg_def assistant_msg_def
          chat_req_def ask_four_def tool_resp_def final_resp_def list_call_def missing_call_def
          broken_call_def refusing_call_def Publish_def execute_call_def Registry_Get_def
          filesystem_tool_def broken_tool_def refusing_tool_def SaveMessage_def GetHistory_def
          GetSummary_def build_messages_def st0_def st_offline_def Let_def Definitions_def)
    apply (subst agent_loop.simps)
    apply (simp add: summarize_step_def shouldSummarize_def estimateTokens_def
          tool_agent_def New_def newContextManager_def cfg0_def user_msg_def assistant_msg_def
          chat_req_def ask_four_def tool_resp_def final_resp_def list_call_def missing_call_def
          broken_call_def refusing_call_def Publish_def execute_call_def Registry_Get_def
          filesystem_tool_def broken_tool_def refusing_tool_def SaveMessage_def GetHistory_def
          GetSummary_def build_messages_def st0_def st_offline_def Let_def Definitions_def)
    apply (subst agent_loop.simps)
    apply (simp add: summarize_step_def shouldSummarize_def estimateTokens_def
          tool_agent_def New_def newContextManager_def cfg0_def user_msg_def assistant_msg_def
          chat_req_def ask_four_def tool_resp_def final_resp_def list_call_def missing_call_def
          broken_call_def refusing_call_def Publish_def execute_call_def Registry_Get_def
          filesystem_tool_def broken_tool_def refusing_tool_def SaveMessage_def GetHistory_def
          GetSummary_def build_messages_def st0_def st_offline_def Let_def Definitions_def)
    done
  have step: "agent_loop tool_agent ''c1'' [user_msg ''Hello''] 0 st0
       = agent_loop tool_agent ''c1''
           ([user_msg ''Hello'',
            \<lparr>Role = ''assistant'', Content = ''Let me look.'',
             ToolCalls = ?tcs, ToolCallID = []\<rparr>]
            @ tool_messages (tools tool_agent) ?tcs [''chat''])
           4
           \<lparr>world = foldl (\<lambda>w tc. world_after (tools tool_agent) tc w) [''chat''] ?tcs,
            mem = mem st0,
            published =
              [llm_request (chat_req tool_agent [user_msg ''Hello'']),
               llm_response_ev (tool_resp ?tcs)]
              @ tool_events ?tcs (tool_messages (tools tool_agent) ?tcs [''chat''])\<rparr>"
    using tool_calls_in_order_never_raised [OF h1 h2 h3 h4]
    by (simp add: tool_resp_def st0_def)
  show ?thesis
    using h1 h2 h4 ok off step unfolding tm wa
    by (simp add: list_call_def missing_call_def broken_call_def refusing_call_def)
qed

text \<open>
  C7.  Take a turn and any response published in it that carries tool calls.  If the
  tool calls that the responses of the turn have asked for up to and with this one number
  more than \<open>MaxToolCalls\<close>, then the response is the last event of the turn, so no
  provider call follows and no tool call of this response is started; every tool call
  of the responses before it was started; the world is as the provider left it when it
  gave this response; the turn returns the truncation message, which is the sentence
  \<open>I've reached the maximum number of tool calls for this request.\<close>, then
  \<open> Here's what I have so far: \<close>, then the response's text; and the store holds its
  rows of before the turn, then the user message, then the truncation message as an
  assistant message.
\<close>

theorem budget_exhaustion_truncates:
  assumes "processMessage a chatID userText st = (res, st')"
      and "published st' = published st @ before @ llm_response_ev resp # after"
      and "resp_ToolCalls resp \<noteq> []"
      and "MaxToolCalls (cfg a) < int (calls_observed (before @ [llm_response_ev resp]))"
  shows "after = []
         \<and> res = Inr (truncation_msg (resp_Content resp))
         \<and> truncation_msg (resp_Content resp)
             = ''I've reached the maximum number of tool calls for this request.''
               @ '' Here's what I have so far: '' @ resp_Content resp
         \<and> rows (mem st')
             = rows (mem st) @ [(chatID, user_msg userText),
                                (chatID, assistant_msg (truncation_msg (resp_Content resp)))]
         \<and> calls_executed before = calls_observed before
         \<and> (\<exists>req w. provider a req w = (Inr resp, world st'))"
proof -
  let ?h = "GetHistory chatID 50 (mem st)"
  let ?st1 = "st\<lparr>mem := SaveMessage chatID (user_msg userText) (mem st)\<rparr>"
  have l: "agent_loop a chatID (build_messages (GetSummary chatID (mem st)) ?h userText) 0 ?st1
             = (res, st')"
    using assms(1) by (simp add: processMessage_def Let_def)
  have p: "published st' = published ?st1 @ before @ llm_response_ev resp # after"
    using assms(2) by simp
  have o: "MaxToolCalls (cfg a) < 0 + int (calls_observed (before @ [llm_response_ev resp]))"
    using assms(4) by simp
  from agent_loop_budget [OF l p assms(3) o] show ?thesis
    by (simp add: SaveMessage_def truncation_msg_def)
qed

theorem budget_exhaustion_truncates_witness:
  "processMessage (agent_of_cfg (cfg0\<lparr>MaxToolCalls := 1\<rparr>) tool_hungry) ''c1'' ''Hello'' st0
     = (Inr (''I've reached the maximum number of tool calls for this request.''
             @ '' Here's what I have so far: '' @ ''Let me look.''),
        \<lparr>world = [''chat'', ''tool'', ''chat''],
         mem = \<lparr>rows = [(''c1'', user_msg ''Hello''),
                        (''c1'', assistant_msg (''I've reached the maximum number of tool calls for this request.''
             @ '' Here's what I have so far: '' @ ''Let me look.''))],
                summaries = (\<lambda>c. None)\<rparr>,
         published =
           [llm_request (chat_req (agent_of_cfg (cfg0\<lparr>MaxToolCalls := 1\<rparr>) tool_hungry) [user_msg ''Hello'']),
          llm_response_ev (tool_resp [list_call]),
          tool_call_ev list_call, tool_result_ev ''t1'' ''  a.txt'',
          llm_request (chat_req (agent_of_cfg (cfg0\<lparr>MaxToolCalls := 1\<rparr>) tool_hungry)
                         [user_msg ''Hello'',
                          \<lparr>Role = ''assistant'', Content = ''Let me look.'',
                           ToolCalls = [list_call], ToolCallID = []\<rparr>,
                          \<lparr>Role = ''tool'', Content = ''  a.txt'', ToolCalls = [],
                           ToolCallID = ''t1''\<rparr>]),
          llm_response_ev (tool_resp [list_call])]\<rparr>)
   \<and> resp_ToolCalls (tool_resp [list_call]) \<noteq> []
   \<and> MaxToolCalls (cfg (agent_of_cfg (cfg0\<lparr>MaxToolCalls := 1\<rparr>) tool_hungry)) = 1
   \<and> calls_observed
        [llm_request (chat_req (agent_of_cfg (cfg0\<lparr>MaxToolCalls := 1\<rparr>) tool_hungry) [user_msg ''Hello'']),
          llm_response_ev (tool_resp [list_call]),
          tool_call_ev list_call, tool_result_ev ''t1'' ''  a.txt'',
          llm_request (chat_req (agent_of_cfg (cfg0\<lparr>MaxToolCalls := 1\<rparr>) tool_hungry)
                         [user_msg ''Hello'',
                          \<lparr>Role = ''assistant'', Content = ''Let me look.'',
                           ToolCalls = [list_call], ToolCallID = []\<rparr>,
                          \<lparr>Role = ''tool'', Content = ''  a.txt'', ToolCalls = [],
                           ToolCallID = ''t1''\<rparr>]),
          llm_response_ev (tool_resp [list_call])] = 2
   \<and> calls_executed
        [llm_request (chat_req (agent_of_cfg (cfg0\<lparr>MaxToolCalls := 1\<rparr>) tool_hungry) [user_msg ''Hello'']),
          llm_response_ev (tool_resp [list_call]),
          tool_call_ev list_call, tool_result_ev ''t1'' ''  a.txt'',
          llm_request (chat_req (agent_of_cfg (cfg0\<lparr>MaxToolCalls := 1\<rparr>) tool_hungry)
                         [user_msg ''Hello'',
                          \<lparr>Role = ''assistant'', Content = ''Let me look.'',
                           ToolCalls = [list_call], ToolCallID = []\<rparr>,
                          \<lparr>Role = ''tool'', Content = ''  a.txt'', ToolCalls = [],
                           ToolCallID = ''t1''\<rparr>])] = 1"
proof -
  let ?a = "agent_of_cfg (cfg0\<lparr>MaxToolCalls := 1\<rparr>) tool_hungry"
  let ?before = "[llm_request (chat_req (agent_of_cfg (cfg0\<lparr>MaxToolCalls := 1\<rparr>) tool_hungry) [user_msg ''Hello'']),
          llm_response_ev (tool_resp [list_call]),
          tool_call_ev list_call, tool_result_ev ''t1'' ''  a.txt'',
          llm_request (chat_req (agent_of_cfg (cfg0\<lparr>MaxToolCalls := 1\<rparr>) tool_hungry)
                         [user_msg ''Hello'',
                          \<lparr>Role = ''assistant'', Content = ''Let me look.'',
                           ToolCalls = [list_call], ToolCallID = []\<rparr>,
                          \<lparr>Role = ''tool'', Content = ''  a.txt'', ToolCalls = [],
                           ToolCallID = ''t1''\<rparr>])]"
  let ?text = "''I've reached the maximum number of tool calls for this request.''
             @ '' Here's what I have so far: '' @ ''Let me look.''"
  let ?st' = "\<lparr>world = [''chat'', ''tool'', ''chat''],
         mem = \<lparr>rows = [(''c1'', user_msg ''Hello''), (''c1'', assistant_msg ?text)],
                summaries = (\<lambda>c. None)\<rparr>,
         published = ?before @ [llm_response_ev (tool_resp [list_call])]\<rparr>"
  have h1: "processMessage ?a ''c1'' ''Hello'' st0 = (Inr ?text, ?st')"
    apply (simp add: processMessage_def summarize_step_def shouldSummarize_def estimateTokens_def
          agent_of_cfg_def New_def newContextManager_def cfg0_def user_msg_def assistant_msg_def
          chat_req_def tool_hungry_def tool_resp_def list_call_def Publish_def execute_call_def
          Registry_Get_def filesystem_tool_def truncation_msg_def SaveMessage_def GetHistory_def
          GetSummary_def build_messages_def st0_def Let_def Definitions_def)
    apply (subst agent_loop.simps)
    apply (simp add: summarize_step_def shouldSummarize_def estimateTokens_def
          agent_of_cfg_def New_def newContextManager_def cfg0_def user_msg_def assistant_msg_def
          chat_req_def tool_hungry_def tool_resp_def list_call_def Publish_def execute_call_def
          Registry_Get_def filesystem_tool_def truncation_msg_def SaveMessage_def GetHistory_def
          GetSummary_def build_messages_def st0_def Let_def Definitions_def)
    apply (subst agent_loop.simps)
    apply (simp add: summarize_step_def shouldSummarize_def estimateTokens_def
          agent_of_cfg_def New_def newContextManager_def cfg0_def user_msg_def assistant_msg_def
          chat_req_def tool_hungry_def tool_resp_def list_call_def Publish_def execute_call_def
          Registry_Get_def filesystem_tool_def truncation_msg_def SaveMessage_def GetHistory_def
          GetSummary_def build_messages_def st0_def Let_def Definitions_def)
    done
  have h2: "published ?st' = published st0 @ ?before @ llm_response_ev (tool_resp [list_call]) # []"
    by (simp add: st0_def)
  have h3: "resp_ToolCalls (tool_resp [list_call]) \<noteq> []"
    by (simp add: tool_resp_def)
  have mx: "MaxToolCalls (cfg ?a) = 1"
    by (simp add: agent_of_cfg_def New_def)
  have co: "calls_observed (?before @ [llm_response_ev (tool_resp [list_call])]) = 2"
    by (simp add: tool_resp_def)
  have h4: "MaxToolCalls (cfg ?a)
              < int (calls_observed (?before @ [llm_response_ev (tool_resp [list_call])]))"
    unfolding mx co by simp
  have ce: "calls_executed ?before = 1"
    by simp
  show ?thesis
    using h1 h3 mx co ce budget_exhaustion_truncates [OF h1 h2 h3 h4]
    by simp
qed

text \<open>
  C9 as the specification states it fails: the code does not store the user message
  before it loads the history.  On an empty store the first request of the turn carries
  the user message once, while the order of the specification would put it there twice
  (once loaded from the store, once appended).
\<close>

theorem store_then_load_counterexample:
  "first_request (published (snd (processMessage (agent_of greeter) ''c1'' ''Hello'' st0)))
     = Some [user_msg ''Hello'']
   \<and> claimed_working_list ''c1'' ''Hello'' (mem st0) = [user_msg ''Hello'', user_msg ''Hello'']"
  by code_simp

text \<open>
  C9, amended.  A turn first loads the last 50 stored messages of the chat, in ascending
  order, and the summary, from the store as it is before the turn; the working list is
  the summary pair (when there is a summary), that history, and the new user message.
  Only then is the user message appended to the store.  The first request of the turn
  carries this working list (when it is below the summarization threshold), and the
  store keeps its rows and gains the user message right after them.
\<close>

theorem load_then_store:
  "(let h = map snd (filter (\<lambda>r. fst r = chatID) (rows (mem st)));
        wl = build_messages (GetSummary chatID (mem st)) (drop (length h - 50) h) userText;
        st' = snd (processMessage a chatID userText st)
    in prefix (rows (mem st) @ [(chatID, user_msg userText)]) (rows (mem st'))
       \<and> (\<not> shouldSummarize (ctxManager a) wl \<longrightarrow>
            first_request (drop (length (published st)) (published st')) = Some wl))"
proof -
  let ?h = "map snd (filter (\<lambda>r. fst r = chatID) (rows (mem st)))"
  let ?wl = "build_messages (GetSummary chatID (mem st)) (drop (length ?h - 50) ?h) userText"
  let ?st1 = "st\<lparr>mem := SaveMessage chatID (user_msg userText) (mem st)\<rparr>"
  obtain res st' where r: "processMessage a chatID userText st = (res, st')"
    by (cases "processMessage a chatID userText st")
  then have l: "agent_loop a chatID ?wl 0 ?st1 = (res, st')"
    by (simp add: processMessage_def GetHistory_def Let_def)
  note post = agent_loop_post [OF l]
  have rows: "prefix (rows (mem st) @ [(chatID, user_msg userText)]) (rows (mem st'))"
    using post by (cases res) (auto simp: SaveMessage_def prefix_def)
  have "first_request (drop (length (published st)) (published st')) = Some ?wl"
    if "\<not> shouldSummarize (ctxManager a) ?wl"
  proof -
    have "fst (summarize_step a chatID ?wl ?st1) = ?wl"
      using that by (simp add: summarize_step_def)
    then show ?thesis
      using post by (auto simp: chat_req_def)
  qed
  then show ?thesis
    using rows r by (simp add: Let_def)
qed

theorem load_then_store_witness:
  "\<not> shouldSummarize (ctxManager (agent_of greeter)) [user_msg ''Hello'']
   \<and> first_request (published (snd (processMessage (agent_of greeter) ''c1'' ''Hello'' st0)))
       = Some [user_msg ''Hello'']
   \<and> prefix [(''c1'', user_msg ''Hello'')]
        (rows (mem (snd (processMessage (agent_of greeter) ''c1'' ''Hello'' st0))))"
proof -
  have h: "\<not> shouldSummarize (ctxManager (agent_of greeter)) [user_msg ''Hello'']"
    by (simp add: shouldSummarize_def estimateTokens_def agent_of_def New_def
          newContextManager_def cfg0_def user_msg_def)
  show ?thesis
    using h load_then_store [of "''c1''" st0 "''Hello''" "agent_of greeter"]
    by (simp add: Let_def st0_def build_messages_def GetSummary_def)
qed

text \<open>
  C10.  When the summarizer's provider call fails, or succeeds with empty content, the
  summarization step returns the working list it was given and leaves the store as it
  was, stored summary included; the same holds when no summary is attempted (the list is
  under the threshold or has at most four messages).  The working list is replaced by
  the summary pair and the last four messages, and the summary is stored, exactly when
  the step is due, the list has more than four messages, and the call succeeds with
  non-empty content.
\<close>

theorem unusable_summary_changes_nothing:
  "(fst (summarizer_call a messages st) = Inl err \<longrightarrow>
      fst (summarize_step a chatID messages st) = messages
      \<and> mem (snd (summarize_step a chatID messages st)) = mem st)
   \<and> (fst (summarizer_call a messages st) = Inr resp \<and> resp_Content resp = [] \<longrightarrow>
      fst (summarize_step a chatID messages st) = messages
      \<and> mem (snd (summarize_step a chatID messages st)) = mem st)
   \<and> (\<not> shouldSummarize (ctxManager a) messages \<or> length messages \<le> 4 \<longrightarrow>
      fst (summarize_step a chatID messages st) = messages
      \<and> mem (snd (summarize_step a chatID messages st)) = mem st)
   \<and> (shouldSummarize (ctxManager a) messages \<and> 4 < length messages
      \<and> fst (summarizer_call a messages st) = Inr resp \<and> resp_Content resp \<noteq> [] \<longrightarrow>
      fst (summarize_step a chatID messages st)
        = [user_msg (''[Conversation summary]: '' @ resp_Content resp),
           assistant_msg ''I understand the context. Continuing...'']
          @ drop (length messages - 4) messages
      \<and> mem (snd (summarize_step a chatID messages st))
        = SaveSummary chatID (resp_Content resp) (mem st))"
  by (cases "cm_provider (ctxManager a) (summaryReq (take (length messages - 4) messages)) (world st)")
     (auto simp: summarize_step_def summarize_def summarizer_call_def Let_def
           split: prod.splits sum.splits)

theorem unusable_summary_changes_nothing_witness:
  "fst (summarizer_call (agent_of_cfg (cfg0\<lparr>SummarizeAt := 1\<rparr>) (failing (OtherError ''down'')))
          long_history st0) = Inl (OtherError ''down'')
   \<and> shouldSummarize (ctxManager (agent_of_cfg (cfg0\<lparr>SummarizeAt := 1\<rparr>) (failing (OtherError ''down''))))
        long_history
   \<and> 4 < length long_history
   \<and> fst (summarize_step (agent_of_cfg (cfg0\<lparr>SummarizeAt := 1\<rparr>) (failing (OtherError ''down'')))
            ''c1'' long_history st0) = long_history
   \<and> mem (snd (summarize_step (agent_of_cfg (cfg0\<lparr>SummarizeAt := 1\<rparr>) (failing (OtherError ''down'')))
                 ''c1'' long_history st0)) = mem st0"
proof -
  have h: "fst (summarizer_call (agent_of_cfg (cfg0\<lparr>SummarizeAt := 1\<rparr>) (failing (OtherError ''down'')))
          long_history st0) = Inl (OtherError ''down'')"
    by (simp add: summarizer_call_def agent_of_cfg_def New_def newContextManager_def failing_def)
  have s: "shouldSummarize (ctxManager (agent_of_cfg (cfg0\<lparr>SummarizeAt := 1\<rparr>) (failing (OtherError ''down''))))
        long_history"
    by (simp add: shouldSummarize_def estimateTokens_def agent_of_cfg_def New_def
          newContextManager_def cfg0_def long_history_def user_msg_def assistant_msg_def)
  show ?thesis
    using h s unusable_summary_changes_nothing
        [of "agent_of_cfg (cfg0\<lparr>SummarizeAt := 1\<rparr>) (failing (OtherError ''down''))"
            long_history st0 "OtherError ''down''" "''c1''"]
    by (simp add: long_history_def)
qed

section \<open>Shell sandbox: proofs\<close>

lemma deny_loop_empty_iff:
  "deny_loop ps normalized = [] \<longleftrightarrow> (\<forall>p \<in> set ps. \<not> MatchString (snd p) normalized)"
  by (induction ps) auto

lemma outside_loop_iff:
  "outside_loop absWorkspace ms \<longleftrightarrow>
     (\<exists>path \<in> set ms. \<not> prefix absWorkspace path \<and> \<not> prefix ''/dev/null'' path)"
  by (induction ms) auto

lemma collapse_loop_blanks:
  "set (collapse_loop b s) \<inter> {CHR 0x09, CHR 0x0A, CHR 0x0D} = {}
   \<and> filter (\<lambda>c. c \<noteq> CHR '' '') (collapse_loop b s)
       = filter (\<lambda>c. c \<notin> {CHR '' '', CHR 0x09, CHR 0x0A, CHR 0x0D}) s"
  by (induction b s rule: collapse_loop.induct) auto

lemma collapse_loop_single:
  "\<not> sublist ''  '' (collapse_loop b s) \<and> (b \<longrightarrow> \<not> prefix '' '' (collapse_loop b s))"
proof (induction b s rule: collapse_loop.induct)
  case (1 inSpace)
  show ?case by simp
next
  case (2 inSpace ch s)
  show ?case
  proof (cases "ch = CHR '' '' \<or> ch = CHR 0x09 \<or> ch = CHR 0x0A \<or> ch = CHR 0x0D")
    case True
    with 2 show ?thesis
      by (auto simp: sublist_Cons_right prefix_Cons)
  next
    case False
    with 2 show ?thesis
      by (auto simp: sublist_Cons_right prefix_Cons)
  qed
qed

text \<open>
  What holds of every command that the shell tool with the sandbox on hands to the
  subprocess: no deny pattern matches the command with its blanks normalized (the
  normalized command has no tab, newline or carriage return and no two spaces in a row,
  and is the command otherwise); the command has no \<open>../\<close>; and, when a workspace
  directory is configured and its absolute path is found, every token that the tool's
  pattern finds in the command begins with the absolute workspace path or with
  \<open>/dev/null\<close>.
\<close>

lemma ShellTool_Execute_runs:
  assumes "sandboxEnabled t"
      and "ShellTool_Execute filepath_Abs t args = Runs command"
  shows "args = Inr command
         \<and> (\<forall>p \<in> set denyPatterns. \<not> MatchString (snd p) (collapseWhitespace command))
         \<and> set (collapseWhitespace command) \<inter> {CHR 0x09, CHR 0x0A, CHR 0x0D} = {}
         \<and> \<not> sublist ''  '' (collapseWhitespace command)
         \<and> filter (\<lambda>c. c \<noteq> CHR '' '') (collapseWhitespace command)
             = filter (\<lambda>c. c \<notin> {CHR '' '', CHR 0x09, CHR 0x0A, CHR 0x0D}) command
         \<and> \<not> sublist ''../'' command
         \<and> (\<forall>absWorkspace.
               workspaceDir t \<noteq> [] \<and> filepath_Abs (workspaceDir t) = Some absWorkspace \<longrightarrow>
               (\<forall>path \<in> set (FindAllStringSubmatch_group absPathPattern_pre
                                  absPathPattern_group command).
                  \<not> prefix ''/dev/null'' path \<longrightarrow> prefix absWorkspace path))"
proof -
  have a: "args = Inr command"
    using assms(2) by (auto simp: ShellTool_Execute_def split: sum.splits if_splits)
  have d: "checkDenyList command = []" and s: "\<not> sublist ''../'' command"
    and w: "\<not> (workspaceDir t \<noteq> []
              \<and> containsAbsolutePathOutsideWorkspace filepath_Abs command (workspaceDir t))"
    using assms a by (auto simp: ShellTool_Execute_def split: if_splits)
  have "\<forall>p \<in> set denyPatterns. \<not> MatchString (snd p) (collapseWhitespace command)"
    using d by (simp add: checkDenyList_def deny_loop_empty_iff)
  moreover have "\<forall>absWorkspace.
               workspaceDir t \<noteq> [] \<and> filepath_Abs (workspaceDir t) = Some absWorkspace \<longrightarrow>
               (\<forall>path \<in> set (FindAllStringSubmatch_group absPathPattern_pre
                                  absPathPattern_group command).
                  \<not> prefix ''/dev/null'' path \<longrightarrow> prefix absWorkspace path)"
    using w by (auto simp: containsAbsolutePathOutsideWorkspace_def outside_loop_iff)
  ultimately show ?thesis
    using a s collapse_loop_blanks [of False command] collapse_loop_single [of False command]
    by (simp add: collapseWhitespace_def)
qed

text \<open>
  C3 fails on the path clause.  The shell tool is the one \<open>initAgent\<close> builds: sandbox
  on, workspace \<open>/home/user/.opendan/workspace\<close>.  The whitelist test is
  \<open>HasPrefix(path, "/dev/null")\<close>, so a token that only begins with \<open>/dev/null\<close>
  passes: \<open>cat /dev/nullx\<close> is run, though its one absolute-path token neither begins
  with the workspace path nor equals \<open>/dev/null\<close>.  And the pattern that looks for
  absolute paths wants a letter after the slash, so it finds no token at all in
  \<open>cat /.ssh/id_rsa\<close>, which is run too.  A path outside the workspace that is spelled
  in full, such as \<open>/usr/share/dict/words\<close>, is rejected.
\<close>

theorem shell_runs_path_outside_workspace:
  "sandboxEnabled shell_in_workspace
   \<and> workspaceDir shell_in_workspace = ''/home/user/.opendan/workspace''
   \<and> abs_in_home (workspaceDir shell_in_workspace) = Some ''/home/user/.opendan/workspace''
   \<and> ShellTool_Execute abs_in_home shell_in_workspace (Inr ''cat /dev/nullx'')
       = Runs ''cat /dev/nullx''
   \<and> FindAllStringSubmatch_group absPathPattern_pre absPathPattern_group ''cat /dev/nullx''
       = [''/dev/nullx'']
   \<and> \<not> prefix ''/home/user/.opendan/workspace'' ''/dev/nullx''
   \<and> ''/dev/nullx'' \<noteq> ''/dev/null''
   \<and> ShellTool_Execute abs_in_home shell_in_workspace (Inr ''cat /.ssh/id_rsa'')
       = Runs ''cat /.ssh/id_rsa''
   \<and> FindAllStringSubmatch_group absPathPattern_pre absPathPattern_group ''cat /.ssh/id_rsa''
       = []
   \<and> ShellTool_Execute abs_in_home shell_in_workspace (Inr ''cat /usr/share/dict/words'')
       \<noteq> Runs ''cat /usr/share/dict/words''"
  by code_simp

section \<open>Browser URL validation: proofs\<close>

lemma domain_listed_iff:
  "domain_listed L ds domain \<longleftrightarrow>
     (\<exists>d \<in> set ds. strings_ToLower L d = domain \<or> suffix (''.'' @ strings_ToLower L d) domain)"
  by (induction ds) (auto simp: Let_def)

text \<open>
  C4.  For every URL that \<open>validateURL\<close> accepts: it parses; its scheme is \<open>http\<close> or
  \<open>https\<close>; its host, in lower case, is none of \<open>localhost\<close>, \<open>ip6-localhost\<close>,
  \<open>ip6-loopback\<close> (so the host itself is none of them, lower-casing leaving these three
  names as they are); if the host parses as an IP address, the address is not loopback,
  private, link-local (unicast or multicast) or unspecified; the host, in lower case,
  equals no deny-list entry in lower case and does not end with a dot and such an entry;
  and when the allow-list is not empty, the host equals, or ends with a dot and, some
  allow-list entry in the same way.
\<close>

theorem validateURL_accepts_only_safe:
  assumes "validateURL L c rawURL = None"
  shows "\<exists>u. url_Parse L rawURL = Inr u
           \<and> (Scheme u = ''http'' \<or> Scheme u = ''https'')
           \<and> strings_ToLower L (Hostname u) \<notin> {''localhost'', ''ip6-localhost'', ''ip6-loopback''}
           \<and> ((\<forall>n \<in> {''localhost'', ''ip6-localhost'', ''ip6-loopback''}. strings_ToLower L n = n) \<longrightarrow>
                Hostname u \<notin> {''localhost'', ''ip6-localhost'', ''ip6-loopback''})
           \<and> (\<forall>ip. net_ParseIP L (Hostname u) = Some ip \<longrightarrow>
                  \<not> IsLoopback L ip \<and> \<not> IsPrivate L ip \<and> \<not> IsLinkLocalUnicast L ip
                  \<and> \<not> IsLinkLocalMulticast L ip \<and> \<not> IsUnspecified L ip)
           \<and> (\<forall>d \<in> set (DeniedDomains c).
                  strings_ToLower L d \<noteq> strings_ToLower L (Hostname u)
                  \<and> \<not> suffix (''.'' @ strings_ToLower L d) (strings_ToLower L (Hostname u)))
           \<and> (AllowedDomains c \<noteq> [] \<longrightarrow>
                (\<exists>d \<in> set (AllowedDomains c).
                    strings_ToLower L d = strings_ToLower L (Hostname u)
                    \<or> suffix (''.'' @ strings_ToLower L d) (strings_ToLower L (Hostname u))))"
proof -
  obtain u where u: "url_Parse L rawURL = Inr u"
    using assms by (cases "url_Parse L rawURL") (auto simp: validateURL_def)
  have s: "Scheme u = ''http'' \<or> Scheme u = ''https''"
    and p: "\<not> isPrivateHost L (Hostname u)"
    and d: "\<not> domain_listed L (DeniedDomains c) (strings_ToLower L (Hostname u))"
    and a: "AllowedDomains c \<noteq> [] \<longrightarrow>
              domain_listed L (AllowedDomains c) (strings_ToLower L (Hostname u))"
    using assms u by (auto simp: validateURL_def Let_def split: if_splits)
  have l: "strings_ToLower L (Hostname u) \<notin> {''localhost'', ''ip6-localhost'', ''ip6-loopback''}"
    using p by (auto simp: isPrivateHost_def Let_def split: if_splits)
  have i: "\<forall>ip. net_ParseIP L (Hostname u) = Some ip \<longrightarrow>
                  \<not> IsLoopback L ip \<and> \<not> IsPrivate L ip \<and> \<not> IsLinkLocalUnicast L ip
                  \<and> \<not> IsLinkLocalMulticast L ip \<and> \<not> IsUnspecified L ip"
    using p by (auto simp: isPrivateHost_def Let_def split: if_splits)
  have n: "(\<forall>n \<in> {''localhost'', ''ip6-localhost'', ''ip6-loopback''}. strings_ToLower L n = n) \<longrightarrow>
                Hostname u \<notin> {''localhost'', ''ip6-localhost'', ''ip6-loopback''}"
    using l by auto
  show ?thesis
    using u s l n i d a unfolding domain_listed_iff by blast
qed

theorem validateURL_accepts_only_safe_witness:
  "validateURL example_netlib example_browser ''https://Docs.Example.com/page'' = None
   \<and> url_Parse example_netlib ''https://Docs.Example.com/page''
       = Inr \<lparr>Scheme = ''https'', Hostname = ''Docs.Example.com''\<rparr>
   \<and> strings_ToLower example_netlib ''localhost'' = ''localhost''
   \<and> strings_ToLower example_netlib ''ip6-localhost'' = ''ip6-localhost''
   \<and> strings_ToLower example_netlib ''ip6-loopback'' = ''ip6-loopback''
   \<and> Hostname \<lparr>Scheme = ''https'', Hostname = ''Docs.Example.com''\<rparr> \<noteq> ''localhost''
   \<and> AllowedDomains example_browser \<noteq> []
   \<and> suffix (''.'' @ strings_ToLower example_netlib ''example.com'')
        (strings_ToLower example_netlib ''Docs.Example.com'')"
proof -
  have h: "validateURL example_netlib example_browser ''https://Docs.Example.com/page'' = None"
    by code_simp
  have l: "\<forall>n \<in> {''localhost'', ''ip6-localhost'', ''ip6-loopback''}.
         strings_ToLower example_netlib n = n"
    by code_simp
  have s: "suffix (''.'' @ strings_ToLower example_netlib ''example.com'')
        (strings_ToLower example_netlib ''Docs.Example.com'')"
    by code_simp
  show ?thesis
    using h l s validateURL_accepts_only_safe [OF h]
    by (simp add: example_netlib_def example_browser_def)
qed

section \<open>The channel path and the sanitizer\<close>

text \<open>
  C8 fails on the channel path.  \<open>App.SendMessage\<close> (the GUI) sanitizes the text before
  the agent sees it and restores the response; the handler that \<open>Start\<close> installs on the
  channels passes the text of the inbound message to \<open>processMessage\<close> as it is, and
  sends the response as it is.  With the e-mail filter on, the provider is sent the
  placeholder on the GUI path and the address itself on the channel path.
\<close>

theorem channel_path_skips_sanitizer:
  "world (fst (snd (SendMessage (\<lambda>m. m) (Some channel_agent) ''email me at a@b.com''
                      (st0, NewSanitizer email_only))))
     = [''provider saw: email me at [EMAIL_1]'']
   \<and> world (on_message channel_agent telegram_msg st0)
     = [''provider saw: email me at a@b.com'', ''sent: Okay.'']"
  by code_simp

section \<open>Regular expressions: what a match can be\<close>

lemma rx_lang_uses: "rx_lang r m \<Longrightarrow> c \<in> set m \<Longrightarrow> rx_uses r c"
  by (induction rule: rx_lang.induct) auto

lemma rx_lang_min:
  "rx_lang r m \<Longrightarrow> \<forall>c \<in> set m. A c \<Longrightarrow> \<exists>k. rx_min A W r = Some k \<and> k \<le> length (filter W m)"
proof (induction rule: rx_lang.induct)
  case (lang_Cls c cs)
  then show ?case by (auto simp: list_ex_iff list_all_iff)
next
  case (lang_Seq r1 m1 r2 m2)
  then show ?case by fastforce
next
  case (lang_Alt1 r1 m r2)
  then show ?case by (fastforce split: option.splits)
next
  case (lang_Alt2 r2 m r1)
  then show ?case by (fastforce split: option.splits)
qed auto

lemma pii_safe_test: "pii_safe_test r \<Longrightarrow> pii_safe r"
  unfolding pii_safe_def
proof (intro allI impI)
  fix m
  assume t: "pii_safe_test r" and l: "rx_lang r m"
  have b: "CHR ''['' \<notin> set m \<and> CHR '']'' \<notin> set m"
    using t rx_lang_uses [OF l] by (auto simp: pii_safe_test_def)
  obtain k where "rx_min (\<lambda>c. True) (\<lambda>c. True) r = Some k" "k \<le> length (filter (\<lambda>c. True) m)"
    using rx_lang_min [OF l, of "\<lambda>c. True" "\<lambda>c. True"] by auto
  then have n: "m \<noteq> []"
    using t by (auto simp: pii_safe_test_def)
  have d: "4 < digits_in m" if sub: "set m \<subseteq> set body_chars"
  proof -
    obtain k where "rx_min (\<lambda>c. c \<in> set body_chars) (\<lambda>c. c \<in> set digit_chars) r = Some k"
      "k \<le> length (filter (\<lambda>c. c \<in> set digit_chars) m)"
      using rx_lang_min [OF l, of "\<lambda>c. c \<in> set body_chars" "\<lambda>c. c \<in> set digit_chars"] sub
      by blast
    then show ?thesis
      using t by (auto simp: pii_safe_test_def digits_in_def)
  qed
  show "m \<noteq> [] \<and> CHR ''['' \<notin> set m \<and> CHR '']'' \<notin> set m
        \<and> (set m \<subseteq> set body_chars \<longrightarrow> 4 < digits_in m)"
    using b n d by blast
qed

lemma default_patterns_safe: "\<forall>f \<in> set defaultFilters. pii_safe (f_pattern f)"
proof -
  have "\<forall>f \<in> set defaultFilters. pii_safe_test (f_pattern f)"
    by code_simp
  then show ?thesis
    using pii_safe_test by blast
qed

lemma star_run_lang:
  assumes "\<And>p q. q \<in> set (f p) \<Longrightarrow> \<exists>m. snd p = m @ snd q \<and> rx_lang r m"
  shows "q \<in> set (star_run f n p) \<Longrightarrow> \<exists>m. snd p = m @ snd q \<and> rx_lang (Star r) m"
proof (induction n arbitrary: p q)
  case 0
  then show ?case by (auto intro: lang_Star0)
next
  case (Suc n)
  from Suc.prems consider "q = p"
    | q' where "q' \<in> set (f p)" "q \<in> set (star_run f n q')"
    by (auto split: if_splits)
  then show ?case
  proof cases
    case 1
    then show ?thesis by (auto intro: lang_Star0)
  next
    case 2
    obtain m1 where m1: "snd p = m1 @ snd q'" "rx_lang r m1"
      using assms [OF 2(1)] by blast
    obtain m2 where m2: "snd q' = m2 @ snd q" "rx_lang (Star r) m2"
      using Suc.IH [OF 2(2)] by blast
    show ?thesis
      using m1 m2 by (auto intro: lang_Star1)
  qed
qed

lemma rx_run_lang:
  "q \<in> set (rx_run r p) \<Longrightarrow> \<exists>m. snd p = m @ snd q \<and> rx_lang r m"
proof (induction r arbitrary: p q)
  case Eps
  then show ?case by (auto intro: lang_Eps)
next
  case (Cls cs)
  then show ?case
    by (cases "snd p") (auto split: if_splits intro!: exI [where x = "[hd (snd p)]"] lang_Cls)
next
  case AnyButNL
  then show ?case
    by (cases "snd p") (auto split: if_splits intro!: exI [where x = "[hd (snd p)]"] lang_Any)
next
  case WordB
  then show ?case by (auto split: if_splits intro: lang_WordB)
next
  case Bol
  then show ?case by (auto split: if_splits intro: lang_Bol)
next
  case (Seq r1 r2)
  then obtain q1 where q1: "q1 \<in> set (rx_run r1 p)" "q \<in> set (rx_run r2 q1)"
    by auto
  obtain m1 where m1: "snd p = m1 @ snd q1" "rx_lang r1 m1"
    using Seq.IH(1) [OF q1(1)] by blast
  obtain m2 where m2: "snd q1 = m2 @ snd q" "rx_lang r2 m2"
    using Seq.IH(2) [OF q1(2)] by blast
  show ?case
    using m1 m2 by (auto intro: lang_Seq)
next
  case (Alt r1 r2)
  then consider "q \<in> set (rx_run r1 p)" | "q \<in> set (rx_run r2 p)"
    by auto
  then show ?case
  proof cases
    case 1
    from Alt.IH(1) [OF 1] show ?thesis by (blast intro: lang_Alt1)
  next
    case 2
    from Alt.IH(2) [OF 2] show ?thesis by (blast intro: lang_Alt2)
  qed
next
  case (Star r)
  show ?case
    using star_run_lang [of "rx_run r" r q "length (snd p)" p] Star by auto
qed

lemma rx_first_lang:
  assumes "rx_first r (pv, t) = Some (n, e)"
  shows "n \<le> length t \<and> rx_lang r (take n t)"
proof -
  obtain q qs where q: "rx_run r (pv, t) = q # qs" "n = length t - length (snd q)"
    using assms by (auto simp: rx_first_def split: list.splits)
  obtain m where m: "t = m @ snd q" "rx_lang r m"
    using rx_run_lang [of q r "(pv, t)"] q by auto
  then have "n = length m"
    using q by simp
  then show ?thesis
    using m by auto
qed

section \<open>The file's own search and replace\<close>

lemma prefix_take_iff: "prefix k t \<longleftrightarrow> take (length k) t = k"
  by (metis append_eq_conv_conj prefix_def take_is_prefix)

lemma indexOf_loop_spec:
  "(indexOf_loop s k i < 0 \<longrightarrow> (\<forall>j. i \<le> j \<and> j \<le> length s \<longrightarrow> \<not> prefix k (drop j s)))
   \<and> (0 \<le> indexOf_loop s k i \<longrightarrow>
        i \<le> nat (indexOf_loop s k i) \<and> nat (indexOf_loop s k i) \<le> length s
        \<and> prefix k (drop (nat (indexOf_loop s k i)) s)
        \<and> (\<forall>j. i \<le> j \<and> j < nat (indexOf_loop s k i) \<longrightarrow> \<not> prefix k (drop j s)))"
proof (induction s k i rule: indexOf_loop.induct)
  case (1 s substr i)
  show ?case
  proof (cases "int i \<le> int (length s) - int (length substr)")
    case False
    then have r: "indexOf_loop s substr i = - 1"
      by (subst indexOf_loop.simps) simp
    have "\<not> prefix substr (drop j s)" if "i \<le> j" "j \<le> length s" for j
    proof
      assume "prefix substr (drop j s)"
      then have "length substr \<le> length s - j"
        using prefix_length_le by fastforce
      then show False
        using False that by linarith
    qed
    then show ?thesis
      using r by simp
  next
    case True
    note inr = True
    show ?thesis
    proof (cases "take (length substr) (drop i s) = substr")
      case True
      then have r: "indexOf_loop s substr i = int i"
        using inr by (subst indexOf_loop.simps) simp
      show ?thesis
        using r True inr by (auto simp: prefix_take_iff)
    next
      case False
      then have r: "indexOf_loop s substr i = indexOf_loop s substr (i + 1)"
        using inr by (subst indexOf_loop.simps) simp
      have np: "\<not> prefix substr (drop i s)"
        using False by (simp add: prefix_take_iff)
      have step: "\<And>j. i \<le> j \<Longrightarrow> j = i \<or> i + 1 \<le> j"
        by linarith
      show ?thesis
        unfolding r using "1.IH" [OF inr False] np
        by (metis Suc_eq_plus1 Suc_leD Suc_leI le_neq_implies_less)
    qed
  qed
qed

lemma repl_rec_skip:
  "\<forall>j < n. \<not> prefix k (drop j s) \<Longrightarrow> n \<le> length s \<Longrightarrow>
     repl_rec k new s = take n s @ repl_rec k new (drop n s)"
proof (induction n arbitrary: s)
  case 0
  show ?case by simp
next
  case (Suc n)
  then obtain c t where s: "s = c # t"
    by (cases s) auto
  have "\<not> prefix k (c # t)"
    using Suc.prems(1) s by (metis drop0 zero_less_Suc)
  moreover have "\<forall>j < n. \<not> prefix k (drop j t)"
    using Suc.prems(1) s by (metis Suc_less_eq drop_Suc_Cons)
  ultimately show ?case
    using Suc.IH [of t] Suc.prems(2) s by simp
qed

lemma repl_rec_hit:
  "k \<noteq> [] \<Longrightarrow> prefix k s \<Longrightarrow> repl_rec k new s = new @ repl_rec k new (drop (length k) s)"
  by (cases s; cases k) (auto simp: drop_Cons')

lemma replaceAll_loop_rec:
  "k \<noteq> [] \<Longrightarrow> replaceAll_loop acc s k new = acc @ repl_rec k new s"
proof (induction acc s k new rule: replaceAll_loop.induct)
  case (1 result s old new)
  note spec = indexOf_loop_spec [of s old 0, folded indexOf_def]
  show ?case
  proof (cases "indexOf s old < 0")
    case True
    then have "\<forall>j < length s. \<not> prefix old (drop j s)"
      using spec by simp
    from repl_rec_skip [OF this, of new] have "repl_rec old new s = s"
      by simp
    then show ?thesis
      using True by (subst replaceAll_loop.simps) (simp add: Let_def)
  next
    case False
    let ?i = "nat (indexOf s old)"
    have i: "?i \<le> length s" "prefix old (drop ?i s)" "\<forall>j < ?i. \<not> prefix old (drop j s)"
      using spec False by auto
    have "repl_rec old new s = take ?i s @ repl_rec old new (drop ?i s)"
      using repl_rec_skip [OF i(3) i(1)] .
    also have "repl_rec old new (drop ?i s) = new @ repl_rec old new (drop (length old) (drop ?i s))"
      using repl_rec_hit [OF "1.prems" i(2)] .
    finally have r: "repl_rec old new s
        = take ?i s @ new @ repl_rec old new (drop (?i + length old) s)"
      by (simp add: add.commute)
    have "replaceAll_loop result s old new
        = replaceAll_loop (result @ take ?i s @ new) (drop (?i + length old) s) old new"
      using False "1.prems" by (subst replaceAll_loop.simps) (simp add: Let_def)
    also have "\<dots> = (result @ take ?i s @ new) @ repl_rec old new (drop (?i + length old) s)"
      using "1.IH" [OF refl False "1.prems" "1.prems"] by simp
    finally show ?thesis
      using r by simp
  qed
qed

lemma replaceAll_rec: "k \<noteq> [] \<Longrightarrow> replaceAll s k new = repl_rec k new s"
  by (simp add: replaceAll_def replaceAll_loop_rec)

section \<open>Restoring a sanitized text\<close>

lemma flat_append [simp]: "flat (a @ b) = flat a @ flat b"
  by (induction a rule: flat.induct) auto

lemma full_append [simp]: "full M (a @ b) = full M a @ full M b"
  by (induction M a rule: full.induct) auto

lemma tokens_append [simp]: "tokens (a @ b) = tokens a \<union> tokens b"
  by (induction a rule: tokens.induct) auto

lemma flat_map_Ch [simp]: "flat (map Ch m) = m"
  by (induction m) auto

lemma full_map_Ch [simp]: "full M (map Ch m) = m"
  by (induction m) auto

lemma tokens_map_Ch [simp]: "tokens (map Ch m) = {}"
  by (induction m) auto

lemma flat_no_tokens: "tokens its = {} \<Longrightarrow> flat its = full M its"
  by (induction its rule: tokens.induct) auto

text \<open>A prefix of the sanitized text that has no opening bracket is spelled by bytes of the input.\<close>

lemma bracket_free_prefix:
  "prefix s (flat its) \<Longrightarrow> CHR ''['' \<notin> set s \<Longrightarrow> \<forall>k \<in> tokens its. wf_key k \<Longrightarrow>
     \<exists>its2. its = map Ch s @ its2"
proof (induction s arbitrary: its)
  case Nil
  show ?case by simp
next
  case (Cons c s)
  show ?case
  proof (cases its)
    case Nil
    with Cons.prems show ?thesis by simp
  next
    case (Cons i r)
    note its = Cons
    show ?thesis
    proof (cases i)
      case (Ch c')
      then have "c' = c" "prefix s (flat r)"
        using Cons.prems(1) its by auto
      moreover have "\<forall>k \<in> tokens r. wf_key k"
        using Cons.prems(3) its Ch by simp
      ultimately obtain r2 where "r = map Ch s @ r2"
        using Cons.IH [of r] Cons.prems(2) by auto
      then show ?thesis
        using its Ch \<open>c' = c\<close> by simp
    next
      case (Ph k)
      then have "wf_key k"
        using Cons.prems(3) its by simp
      then have "prefix [CHR ''[''] (flat its)"
        using its Ph by (auto simp: wf_key_def)
      then have "c = CHR ''[''"
        using Cons.prems(1) its by (cases "flat its") auto
      then show ?thesis
        using Cons.prems(2) by simp
    qed
  qed
qed

text \<open>An occurrence of a placeholder that starts at a byte of the input lies in the input.\<close>

lemma occurrence_at_byte:
  assumes "prefix k (flat (Ch c # r))" and "wf_key k" and "\<forall>k' \<in> tokens r. wf_key k'"
  shows "\<exists>r2. Ch c # r = map Ch k @ r2"
proof -
  obtain b where b: "k = CHR ''['' # b @ '']''" "CHR ''['' \<notin> set b"
    using assms(2) by (auto simp: wf_key_def)
  have "c = CHR ''[''" and p: "prefix (b @ '']'') (flat r)"
    using assms(1) b by auto
  have "CHR ''['' \<notin> set (b @ '']'')"
    using b by simp
  from bracket_free_prefix [OF p this assms(3)] obtain r2 where "r = map Ch (b @ '']'') @ r2"
    by blast
  then show ?thesis
    using b \<open>c = CHR ''[''\<close> by simp
qed

text \<open>Inside another placeholder no placeholder starts.\<close>

lemma until_bracket:
  "CHR '']'' \<notin> set b \<Longrightarrow> takeWhile (\<lambda>c. c \<noteq> CHR '']'') (b @ CHR '']'' # t) = b"
  by (induction b) auto

lemma no_occurrence_in_other:
  assumes "wf_key k" and "wf_key k'" and "k' \<noteq> k" and "j < length k'"
  shows "\<not> prefix k (drop j (k' @ t))"
proof
  assume p: "prefix k (drop j (k' @ t))"
  obtain b where b: "k = CHR ''['' # b @ '']''" "CHR ''['' \<notin> set b" "CHR '']'' \<notin> set b"
    using assms(1) by (auto simp: wf_key_def)
  obtain b' where b': "k' = CHR ''['' # b' @ '']''" "CHR ''['' \<notin> set b'" "CHR '']'' \<notin> set b'"
    using assms(2) by (auto simp: wf_key_def)
  show False
  proof (cases j)
    case 0
    then have "prefix (b @ '']'') (b' @ CHR '']'' # t)"
      using p b b' by simp
    then obtain z where "b' @ CHR '']'' # t = b @ CHR '']'' # z"
      by (auto simp: prefix_def)
    then have "takeWhile (\<lambda>c. c \<noteq> CHR '']'') (b' @ CHR '']'' # t)
        = takeWhile (\<lambda>c. c \<noteq> CHR '']'') (b @ CHR '']'' # z)"
      by simp
    then have "b' = b"
      using b(3) b'(3) by (simp add: until_bracket)
    then show False
      using assms(3) b b' by simp
  next
    case (Suc j')
    then have d: "drop j (k' @ t) = drop j' (b' @ '']'') @ t" and "j' \<le> length b'"
      using b' assms(4) by auto
    then have "drop j' (b' @ '']'') \<noteq> []"
      by simp
    then obtain c u where cu: "drop j' (b' @ '']'') = c # u"
      by (cases "drop j' (b' @ '']'')") auto
    then have "c \<in> set (b' @ '']'')"
      by (metis in_set_dropD list.set_intros(1))
    then have c: "c \<noteq> CHR ''[''"
      using b' by auto
    from p have "prefix k (c # u @ t)"
      unfolding d cu by simp
    then show False
      using b c by simp
  qed
qed

text \<open>
  One step of \<open>Restore\<close>: when the placeholder does not occur in the input, \<open>replaceAll\<close>
  replaces exactly the items that stand for it.
\<close>

lemma replaceAll_subst:
  assumes "wf_key k" and "\<forall>k' \<in> tokens its. wf_key k'" and "\<not> sublist k (full M its)"
  shows "replaceAll (flat its) k orig = flat (subst k orig its)"
proof -
  have k: "k \<noteq> []"
    using assms(1) by (auto simp: wf_key_def)
  have "repl_rec k orig (flat its) = flat (subst k orig its)"
    using assms(2,3)
  proof (induction its rule: flat.induct)
    case 1
    show ?case by simp
  next
    case (2 c r)
    have "\<not> prefix k (flat (Ch c # r))"
    proof
      assume "prefix k (flat (Ch c # r))"
      then obtain r2 where "Ch c # r = map Ch k @ r2"
        using occurrence_at_byte assms(1) 2(2) by (metis tokens.simps(2))
      then have "full M (Ch c # r) = k @ full M r2"
        by (metis full_append full_map_Ch)
      then show False
        using 2(3) by (metis sublist_appendI append_Nil)
    qed
    moreover have "\<not> sublist k (full M r)"
      using 2(3) by (auto simp: sublist_Cons_right)
    ultimately show ?case
      using 2 by simp
  next
    case (3 k' r)
    have nr: "\<not> sublist k (full M r)"
      using 3(3) by (metis full.simps(3) sublist_append_leftI sublist_appendI sublist_order.order.trans append.assoc)
    show ?case
    proof (cases "k' = k")
      case True
      then have "prefix k (flat (Ph k' # r))"
        by simp
      from repl_rec_hit [OF k this] show ?thesis
        using True 3 nr by simp
    next
      case False
      have "wf_key k'"
        using 3(2) by simp
      then have "\<forall>j < length k'. \<not> prefix k (drop j (k' @ flat r))"
        using no_occurrence_in_other [OF assms(1) _ False] by blast
      from repl_rec_skip [OF this, of orig] show ?thesis
        using False 3 nr by simp
    qed
  qed
  then show ?thesis
    using k by (simp add: replaceAll_rec)
qed

lemma full_subst:
  "map_of M k = Some orig \<Longrightarrow> full M (subst k orig its) = full M its"
  by (induction its rule: flat.induct) auto

lemma tokens_subst: "tokens (subst k orig its) = tokens its - {k}"
  by (induction its rule: flat.induct) auto

text \<open>
  The whole of \<open>Restore\<close>, in any order of the entries: when no placeholder of the map
  occurs in the input, every item that stands for a visited placeholder is replaced by
  its original.
\<close>

lemma restore_fold:
  assumes "\<forall>(k, orig) \<in> set es. wf_key k \<and> map_of M k = Some orig \<and> \<not> sublist k (full M its)"
      and "\<forall>k \<in> tokens its. wf_key k"
  shows "\<exists>its'. foldl (\<lambda>result (placeholder, original). replaceAll result placeholder original)
                  (flat its) es = flat its'
           \<and> full M its' = full M its \<and> tokens its' = tokens its - fst ` set es"
  using assms
proof (induction es arbitrary: its)
  case Nil
  show ?case by auto
next
  case (Cons e es)
  obtain k orig where e: "e = (k, orig)"
    by (cases e)
  have ke: "wf_key k" "map_of M k = Some orig" "\<not> sublist k (full M its)"
    using Cons.prems(1) e by auto
  let ?its1 = "subst k orig its"
  have s1: "replaceAll (flat its) k orig = flat ?its1"
    using replaceAll_subst [OF ke(1) Cons.prems(2) ke(3)] .
  have f1: "full M ?its1 = full M its"
    using full_subst [OF ke(2)] .
  have t1: "tokens ?its1 = tokens its - {k}"
    using tokens_subst .
  have "\<forall>(k, orig) \<in> set es. wf_key k \<and> map_of M k = Some orig \<and> \<not> sublist k (full M ?its1)"
    using Cons.prems(1) f1 by auto
  moreover have "\<forall>k \<in> tokens ?its1. wf_key k"
    using Cons.prems(2) t1 by auto
  ultimately obtain its' where
    "foldl (\<lambda>result (placeholder, original). replaceAll result placeholder original)
        (flat ?its1) es = flat its'"
    "full M its' = full M ?its1" "tokens its' = tokens ?its1 - fst ` set es"
    using Cons.IH [of ?its1] by blast
  then show ?case
    using e s1 f1 t1 by (intro exI [of _ its']) auto
qed

section \<open>The sanitizer's invariant\<close>

lemma digit_val_nth: "d < 10 \<Longrightarrow> digit_val (digit_chars ! d) = d"
proof -
  have "\<forall>d \<in> set [0..<10]. digit_val (digit_chars ! d) = d"
    by code_simp
  then show "d < 10 \<Longrightarrow> digit_val (digit_chars ! d) = d"
    by simp
qed

lemma dec_val_snoc: "dec_val (ds @ [c]) = 10 * dec_val ds + digit_val c"
  by (simp add: dec_val_def)

lemma dec_val_itoa: "dec_val (itoa n) = n"
proof (induction n rule: itoa.induct)
  case (1 n)
  show ?case
  proof (cases "n < 10")
    case True
    then show ?thesis
      by (subst itoa.simps) (simp add: dec_val_def digit_val_nth)
  next
    case False
    then show ?thesis
      using "1.IH" by (subst itoa.simps) (simp add: dec_val_snoc digit_val_nth)
  qed
qed

lemma itoa_inj: "itoa n = itoa n' \<Longrightarrow> n = n'"
  by (metis dec_val_itoa)

lemma itoa_digits: "set (itoa n) \<subseteq> set digit_chars"
proof (induction n rule: itoa.induct)
  case (1 n)
  have "length digit_chars = 10"
    by (simp add: digit_chars_def)
  then have d: "digit_chars ! k \<in> set digit_chars" if "k < 10" for k
    using that by (metis nth_mem)
  show ?case
  proof (cases "n < 10")
    case True
    then show ?thesis
      using d by (subst itoa.simps) simp
  next
    case False
    then show ?thesis
      using "1.IH" d [of "n mod 10"] by (subst itoa.simps) simp
  qed
qed

lemma itoa_length: "n < 10 ^ k \<Longrightarrow> 0 < k \<Longrightarrow> length (itoa n) \<le> k"
proof (induction n arbitrary: k rule: itoa.induct)
  case (1 n)
  show ?case
  proof (cases "n < 10")
    case True
    then show ?thesis
      using "1.prems" by (subst itoa.simps) simp
  next
    case False
    obtain k' where k: "k = Suc k'"
      using "1.prems"(2) by (cases k) auto
    have "k' \<noteq> 0"
      using False "1.prems"(1) k by (cases k') auto
    moreover have "n div 10 < 10 ^ k'"
      using "1.prems"(1) k by (simp add: less_mult_imp_div_less mult.commute)
    ultimately have "length (itoa (n div 10)) \<le> k'"
      using "1.IH" [OF False, of k'] by simp
    then show ?thesis
      using False k by (subst itoa.simps) simp
  qed
qed

lemma prefixes_eq: "prefixes = [''EMAIL'', ''PHONE'', ''CARD'', ''IP'', ''SSN'']"
  by (simp add: prefixes_def defaultFilters_def)

lemma prefix_chars:
  "pfx \<in> set prefixes \<Longrightarrow> set pfx \<subseteq> set upper_chars \<and> CHR ''_'' \<notin> set pfx \<and> digits_in pfx = 0"
  by (auto simp: prefixes_eq upper_chars_def digits_in_def digit_chars_def)

lemma until_underscore:
  "CHR ''_'' \<notin> set p \<Longrightarrow> takeWhile (\<lambda>c. c \<noteq> CHR ''_'') (p @ CHR ''_'' # t) = p"
  by (induction p) auto

lemma placeholder_inj:
  assumes "placeholder pfx n = placeholder pfx' n'" and "pfx \<in> set prefixes" and "pfx' \<in> set prefixes"
  shows "pfx = pfx' \<and> n = n'"
proof -
  have e: "pfx @ CHR ''_'' # itoa n = pfx' @ CHR ''_'' # itoa n'"
    using assms(1) by (simp add: placeholder_def)
  then have "takeWhile (\<lambda>c. c \<noteq> CHR ''_'') (pfx @ CHR ''_'' # itoa n)
      = takeWhile (\<lambda>c. c \<noteq> CHR ''_'') (pfx' @ CHR ''_'' # itoa n')"
    by simp
  then have p: "pfx = pfx'"
    using prefix_chars [OF assms(2)] prefix_chars [OF assms(3)] by (simp add: until_underscore)
  then have "itoa n = itoa n'"
    using e by simp
  then show ?thesis
    using p itoa_inj by blast
qed

lemma placeholder_good:
  assumes "pfx \<in> set prefixes" and "n < 10000"
  shows "good_key (placeholder pfx n)"
proof -
  let ?b = "pfx @ ''_'' @ itoa n"
  have "length (itoa n) \<le> 4"
    using itoa_length [of n 4] assms(2) by simp
  moreover have "digits_in (itoa n) = length (itoa n)"
    using itoa_digits [of n] by (simp add: digits_in_def subset_eq)
  ultimately have "digits_in ?b \<le> 4"
    using prefix_chars [OF assms(1)] by (simp add: digits_in_def digit_chars_def)
  moreover have "set ?b \<subseteq> set body_chars"
    using prefix_chars [OF assms(1)] itoa_digits [of n] by (auto simp: body_chars_def)
  ultimately show ?thesis
    unfolding good_key_def placeholder_def by (intro exI [of _ ?b]) simp
qed

lemma good_key_wf: "good_key k \<Longrightarrow> wf_key k"
  unfolding good_key_def wf_key_def
  by (auto simp: body_chars_def upper_chars_def digit_chars_def)

lemma update_fresh: "k \<notin> fst ` set al \<Longrightarrow> AList.update k v al = al @ [(k, v)]"
  by (induction al) auto

lemma find_None_values:
  "find (\<lambda>(placeholder, original). original = m) al = None \<Longrightarrow> m \<notin> snd ` set al"
  by (auto simp: find_None_iff)

lemma find_Some_set: "find P xs = Some x \<Longrightarrow> x \<in> set xs \<and> P x"
  by (induction xs) (auto split: if_splits)

lemma sanitize_match_hit:
  assumes "san_inv s" and "(p, m) \<in> set (mappings s)"
  shows "sanitize_match pfx m s = (p, s)"
proof -
  obtain e where f: "find (\<lambda>(placeholder, original). original = m) (mappings s) = Some e"
    using assms(2) by (cases "find (\<lambda>(placeholder, original). original = m) (mappings s)")
      (auto simp: find_None_iff)
  then have "e \<in> set (mappings s)" "snd e = m"
    using find_Some_set [OF f] by auto
  moreover have "inj_on snd (set (mappings s))"
    using assms(1) by (simp add: san_inv_def distinct_map)
  ultimately have "e = (p, m)"
    using assms(2) inj_onD [of snd "set (mappings s)" e "(p, m)"] by simp
  then show ?thesis
    using f by (simp add: sanitize_match_def)
qed

lemma sanitize_match_entry:
  "sanitize_match pfx m s = (p, s1) \<Longrightarrow> (p, m) \<in> set (mappings s1)"
proof (cases "find (\<lambda>(placeholder, original). original = m) (mappings s)")
  case None
  assume "sanitize_match pfx m s = (p, s1)"
  then show ?thesis
    using None by (auto simp: sanitize_match_def Let_def AList.update_conv' intro: map_of_SomeD)
next
  case (Some e)
  assume "sanitize_match pfx m s = (p, s1)"
  then show ?thesis
    using Some find_Some_set [OF Some] by (auto simp: sanitize_match_def split: prod.splits)
qed

lemma sanitize_match_grows:
  assumes "san_inv s" and "pfx \<in> set prefixes"
  shows "grows s (snd (sanitize_match pfx m s))"
proof (cases "find (\<lambda>(placeholder, original). original = m) (mappings s)")
  case (Some e)
  then show ?thesis
    using assms(1) by (auto simp: sanitize_match_def grows_def split: prod.splits)
next
  case None
  let ?n = "Suc (counter s pfx)"
  let ?p = "placeholder pfx ?n"
  let ?s1 = "s\<lparr>counter := (counter s)(pfx := ?n),
               mappings := AList.update ?p m (mappings s)\<rparr>"
  have s1: "snd (sanitize_match pfx m s) = ?s1"
    using None by (simp add: sanitize_match_def Let_def placeholder_def)
  have fresh: "?p \<notin> fst ` set (mappings s)"
  proof
    assume "?p \<in> fst ` set (mappings s)"
    then obtain orig where "(?p, orig) \<in> set (mappings s)"
      by auto
    then obtain pfx' n' where "pfx' \<in> set prefixes" "n' \<le> counter s pfx'"
        "?p = placeholder pfx' n'"
      using assms(1) by (fastforce simp: san_inv_def)
    then show False
      using placeholder_inj [of pfx ?n pfx' n'] assms(2) by auto
  qed
  then have u: "AList.update ?p m (mappings s) = mappings s @ [(?p, m)]"
    by (rule update_fresh)
  have v: "m \<notin> snd ` set (mappings s)"
    using None by (rule find_None_values)
  have "san_inv ?s1"
    unfolding san_inv_def
  proof (intro conjI)
    show "distinct (map fst (mappings ?s1))"
      using assms(1) fresh by (simp add: u san_inv_def)
    show "distinct (map snd (mappings ?s1))"
      using assms(1) v by (simp add: u san_inv_def)
    show "\<forall>(k, orig) \<in> set (mappings ?s1).
            \<exists>pfx' n. pfx' \<in> set prefixes \<and> 0 < n \<and> n \<le> counter ?s1 pfx' \<and> k = placeholder pfx' n"
    proof (clarify)
      fix k orig
      assume "(k, orig) \<in> set (mappings ?s1)"
      then consider "(k, orig) \<in> set (mappings s)" | "k = ?p"
        by (auto simp: u)
      then show "\<exists>pfx' n. pfx' \<in> set prefixes \<and> 0 < n \<and> n \<le> counter ?s1 pfx' \<and> k = placeholder pfx' n"
      proof cases
        case 1
        then obtain pfx' n' where "pfx' \<in> set prefixes" "0 < n'" "n' \<le> counter s pfx'"
            "k = placeholder pfx' n'"
          using assms(1) by (fastforce simp: san_inv_def)
        then show ?thesis
          by (intro exI [of _ pfx'] exI [of _ n']) auto
      next
        case 2
        then show ?thesis
          using assms(2) by (intro exI [of _ pfx] exI [of _ ?n]) auto
      qed
    qed
    show "\<forall>pfx'. counter ?s1 pfx' \<le> length (mappings ?s1)"
      using assms(1) by (auto simp: u san_inv_def le_SucI)
    show "set (filters ?s1) \<subseteq> set defaultFilters"
      using assms(1) by (simp add: san_inv_def)
  qed
  then show ?thesis
    unfolding s1 grows_def by (auto simp: u)
qed

lemma grows_refl: "san_inv s \<Longrightarrow> grows s s"
  by (simp add: grows_def)

lemma grows_trans: "grows s s1 \<Longrightarrow> grows s1 s2 \<Longrightarrow> grows s s2"
  by (auto simp: grows_def)

text \<open>What every call of the replacement function keeps, the whole scan keeps.\<close>

lemma scan_invariant:
  assumes "\<And>m st. P st \<Longrightarrow> P (snd (repl m st))"
  shows "P st \<Longrightarrow> P (snd (replace_scan r repl prev t am st))"
proof (induction "length t" arbitrary: t prev am st rule: less_induct)
  case less
  show ?case
  proof (cases "rx_first r (prev, t)")
    case None
    show ?thesis
    proof (cases t)
      case Nil
      then show ?thesis
        using None less.prems by (subst replace_scan.simps) simp
    next
      case (Cons c u)
      have "P (snd (replace_scan r repl (Some c) u False st))"
        using less.hyps [of u] Cons less.prems by simp
      then show ?thesis
        using None Cons by (subst replace_scan.simps) (simp add: case_prod_beta)
    qed
  next
    case (Some ne)
    obtain n e where ne: "ne = (n, e)"
      by (cases ne)
    show ?thesis
    proof (cases "n = 0")
      case True
      let ?st1 = "snd (if am then ([], st) else repl [] st)"
      have p1: "P ?st1"
        using assms less.prems by simp
      show ?thesis
      proof (cases t)
        case Nil
        then show ?thesis
          using Some ne True p1 by (subst replace_scan.simps) (simp add: case_prod_beta)
      next
        case (Cons c u)
        have "P (snd (replace_scan r repl (Some c) u False ?st1))"
          using less.hyps [of u] Cons p1 by simp
        then show ?thesis
          using Some ne True Cons by (subst replace_scan.simps) (simp add: case_prod_beta)
      qed
    next
      case False
      let ?st1 = "snd (repl (take n t) st)"
      have p1: "P ?st1"
        using assms less.prems by simp
      show ?thesis
      proof (cases t)
        case Nil
        then show ?thesis
          using Some ne False p1 by (subst replace_scan.simps) (simp add: case_prod_beta)
      next
        case (Cons c u)
        have "P (snd (replace_scan r repl e (drop (n - 1) u) True ?st1))"
          using less.hyps [of "drop (n - 1) u"] Cons p1 by simp
        then show ?thesis
          using Some ne False Cons by (subst replace_scan.simps) (simp add: case_prod_beta)
      qed
    qed
  qed
qed

lemma scan_grows:
  assumes "san_inv s" and "pfx \<in> set prefixes"
  shows "grows s (snd (replace_scan r (sanitize_match pfx) prev t am s))"
proof -
  have "grows s (snd (sanitize_match pfx m st))" if "grows s st" for m st
    using that sanitize_match_grows [OF _ assms(2), of st m] grows_trans grows_def by blast
  from scan_invariant [of "grows s" "sanitize_match pfx", OF this] show ?thesis
    using grows_refl [OF assms(1)] by blast
qed

section \<open>The shape of a sanitized text\<close>

lemma scan_skip:
  assumes "\<forall>j < length u. \<forall>pv. rx_first r (pv, drop j u @ t) = None" and "u \<noteq> []"
  shows "replace_scan r repl prev (u @ t) am st
           = (u @ fst (replace_scan r repl (Some (last u)) t False st),
              snd (replace_scan r repl (Some (last u)) t False st))"
  using assms
proof (induction u arbitrary: prev am)
  case Nil
  then show ?case by simp
next
  case (Cons c u)
  have n0: "rx_first r (prev, (c # u) @ t) = None"
    using Cons.prems(1) [rule_format, of 0 prev] by simp
  have one: "replace_scan r repl prev ((c # u) @ t) am st
      = (c # fst (replace_scan r repl (Some c) (u @ t) False st),
         snd (replace_scan r repl (Some c) (u @ t) False st))"
    using n0 by (subst replace_scan.simps) (simp add: case_prod_beta)
  show ?case
  proof (cases "u = []")
    case True
    then show ?thesis
      using one by simp
  next
    case False
    have "\<forall>j < length u. \<forall>pv. rx_first r (pv, drop j u @ t) = None"
    proof (intro allI impI)
      fix j pv
      assume "j < length u"
      then have "rx_first r (pv, drop (Suc j) (c # u) @ t) = None"
        using Cons.prems(1) [rule_format, of "Suc j" pv] by simp
      then show "rx_first r (pv, drop j u @ t) = None"
        by simp
    qed
    from Cons.IH [OF this False, of "Some c" False] show ?thesis
      using one False by simp
  qed
qed

lemma filter_take_le: "length (filter P (take n xs)) \<le> length (filter P xs)"
proof -
  have "length (filter P xs) = length (filter P (take n xs @ drop n xs))"
    by simp
  also have "\<dots> = length (filter P (take n xs)) + length (filter P (drop n xs))"
    by (simp only: filter_append length_append)
  finally show ?thesis
    by simp
qed

lemma filter_drop_le: "length (filter P (drop n xs)) \<le> length (filter P xs)"
proof -
  have "length (filter P xs) = length (filter P (take n xs @ drop n xs))"
    by simp
  also have "\<dots> = length (filter P (take n xs)) + length (filter P (drop n xs))"
    by (simp only: filter_append length_append)
  finally show ?thesis
    by simp
qed

lemma digits_in_piece: "digits_in (take n (drop j b)) \<le> digits_in b"
  unfolding digits_in_def
  using filter_take_le [of _ n "drop j b"] filter_drop_le [of _ j b] le_trans by blast

text \<open>A safe pattern finds no match that starts inside a placeholder.\<close>

lemma no_match_in_key:
  assumes "pii_safe r" and "good_key k" and "j < length k"
  shows "rx_first r (pv, drop j k @ t) = None"
proof (rule ccontr)
  assume "rx_first r (pv, drop j k @ t) \<noteq> None"
  then obtain n e where ne: "rx_first r (pv, drop j k @ t) = Some (n, e)"
    by auto
  let ?m = "take n (drop j k @ t)"
  have l: "rx_lang r ?m"
    using rx_first_lang [OF ne] by simp
  then have m: "?m \<noteq> []" "CHR ''['' \<notin> set ?m" "CHR '']'' \<notin> set ?m"
      "set ?m \<subseteq> set body_chars \<longrightarrow> 4 < digits_in ?m"
    using assms(1) by (auto simp: pii_safe_def)
  obtain b where b: "k = CHR ''['' # b @ '']''" "set b \<subseteq> set body_chars" "digits_in b \<le> 4"
    using assms(2) by (auto simp: good_key_def)
  have n: "0 < n"
    using m(1) by (cases n) auto
  show False
  proof (cases j)
    case 0
    then have "hd ?m = CHR ''[''"
      using b n by (cases n) auto
    then show False
      using m(1,2) hd_in_set [of ?m] by simp
  next
    case (Suc j')
    then have j': "j' \<le> length b"
      using assms(3) b by simp
    then have d: "drop j k @ t = drop j' b @ CHR '']'' # t"
      using Suc b by simp
    have "n \<le> length (drop j' b)"
    proof (rule ccontr)
      assume "\<not> n \<le> length (drop j' b)"
      then have "CHR '']'' \<in> set (take n (drop j' b @ CHR '']'' # t))"
        by (cases "n - length (drop j' b)") (auto simp: take_Cons')
      then show False
        using m(3) d by simp
    qed
    then have e: "?m = take n (drop j' b)"
      using d by simp
    then have "set ?m \<subseteq> set b"
      using set_take_subset [of n "drop j' b"] set_drop_subset [of j' b] by simp
    then have "4 < digits_in ?m"
      using m(4) b(2) by blast
    then show False
      using digits_in_piece [of n j' b] b(3) e by simp
  qed
qed

text \<open>
  One filter's pass over a text of items: every match lies in bytes of the input, so
  the result is again a text of items, which stands for the same input.
\<close>

lemma scan_items:
  assumes "pii_safe r" and "pfx \<in> set prefixes" and "distinct (map fst M)"
      and "\<forall>k \<in> fst ` set M. good_key k"
  shows "san_inv s \<Longrightarrow> tokens its \<subseteq> fst ` set (mappings s) \<Longrightarrow>
         set (mappings (snd (replace_scan r (sanitize_match pfx) prev (flat its) am s))) \<subseteq> set M \<Longrightarrow>
         \<exists>its'. fst (replace_scan r (sanitize_match pfx) prev (flat its) am s) = flat its'
           \<and> full M its' = full M its
           \<and> tokens its' \<subseteq> fst ` set (mappings (snd (replace_scan r (sanitize_match pfx) prev
                                                        (flat its) am s)))"
proof (induction "length its" arbitrary: its prev am s rule: less_induct)
  case less
  let ?scan = "replace_scan r (sanitize_match pfx)"
  let ?res = "?scan prev (flat its) am s"
  note g = scan_grows [OF less.prems(1) assms(2), of r prev "flat its" am]
  have keys: "fst ` set (mappings s) \<subseteq> fst ` set M"
    using g less.prems(3) by (auto simp: grows_def)
  have wf: "\<forall>k \<in> tokens its. wf_key k"
    using less.prems(2) keys assms(4) good_key_wf by blast
  show ?case
  proof (cases its)
    case Nil
    have "rx_first r (prev, []) = None"
    proof (rule ccontr)
      assume "rx_first r (prev, []) \<noteq> None"
      then obtain n e where "rx_first r (prev, []) = Some (n, e)"
        by auto
      from rx_first_lang [OF this] show False
        using assms(1) by (auto simp: pii_safe_def)
    qed
    then have "?res = ([], s)"
      using Nil by (subst replace_scan.simps) simp
    then show ?thesis
      using Nil by (intro exI [of _ "[]"]) simp
  next
    case (Cons i rest)
    note its = Cons
    show ?thesis
    proof (cases i)
      case (Ph k)
      have "k \<in> fst ` set (mappings s)"
        using less.prems(2) its Ph by simp
      then have gk: "good_key k"
        using keys assms(4) by blast
      then have kne: "k \<noteq> []"
        by (auto simp: good_key_def)
      have "\<forall>j < length k. \<forall>pv. rx_first r (pv, drop j k @ flat rest) = None"
        using no_match_in_key [OF assms(1) gk] by blast
      from scan_skip [OF this kne, of "sanitize_match pfx" prev am s]
      have sk: "?res = (k @ fst (?scan (Some (last k)) (flat rest) False s),
                       snd (?scan (Some (last k)) (flat rest) False s))"
        using its Ph by simp
      have "\<exists>its'. fst (?scan (Some (last k)) (flat rest) False s) = flat its'
           \<and> full M its' = full M rest
           \<and> tokens its' \<subseteq> fst ` set (mappings (snd (?scan (Some (last k)) (flat rest) False s)))"
        using less.hyps [of rest s "Some (last k)" False] less.prems its Ph sk by simp
      then obtain its' where i': "fst (?scan (Some (last k)) (flat rest) False s) = flat its'"
          "full M its' = full M rest"
          "tokens its' \<subseteq> fst ` set (mappings (snd (?scan (Some (last k)) (flat rest) False s)))"
        by blast
      have "k \<in> fst ` set (mappings (snd ?res))"
        using less.prems(2) g its Ph by (auto simp: grows_def)
      then show ?thesis
        using i' sk its Ph by (intro exI [of _ "Ph k # its'"]) simp
    next
      case (Ch c)
      show ?thesis
      proof (cases "rx_first r (prev, flat its)")
        case None
        then have one: "?res = (c # fst (?scan (Some c) (flat rest) False s),
                              snd (?scan (Some c) (flat rest) False s))"
          using its Ch by (subst replace_scan.simps) (simp add: case_prod_beta)
        have "\<exists>its'. fst (?scan (Some c) (flat rest) False s) = flat its'
           \<and> full M its' = full M rest
           \<and> tokens its' \<subseteq> fst ` set (mappings (snd (?scan (Some c) (flat rest) False s)))"
          using less.hyps [of rest s "Some c" False] less.prems its Ch one by simp
        then obtain its' where i': "fst (?scan (Some c) (flat rest) False s) = flat its'"
            "full M its' = full M rest"
            "tokens its' \<subseteq> fst ` set (mappings (snd (?scan (Some c) (flat rest) False s)))"
          by blast
        show ?thesis
          using i' one its Ch by (intro exI [of _ "Ch c # its'"]) simp
      next
        case (Some ne)
        obtain n e where ne: "rx_first r (prev, flat its) = Some (n, e)"
          using Some by (cases ne) auto
        define m where "m = take n (flat its)"
        have nl: "n \<le> length (flat its)" and l: "rx_lang r m"
          using rx_first_lang [OF ne] by (auto simp: m_def)
        have m: "m \<noteq> []" "CHR ''['' \<notin> set m"
          using l assms(1) by (auto simp: pii_safe_def)
        have len: "length m = n"
          using nl by (simp add: m_def)
        then have n0: "n \<noteq> 0"
          using m(1) by auto
        have "prefix m (flat its)"
          by (simp add: m_def take_is_prefix)
        from bracket_free_prefix [OF this m(2) wf] obtain its2 where its2: "its = map Ch m @ its2"
          by blast
        have fl: "flat its = m @ flat its2"
          using arg_cong [OF its2, of flat] by simp
        have dr: "drop n (flat its) = flat its2"
          unfolding fl using len by simp
        let ?p = "fst (sanitize_match pfx m s)"
        let ?s1 = "snd (sanitize_match pfx m s)"
        have dr1: "drop (n - 1) (flat rest) = flat its2"
          using dr n0 its Ch by (cases n) auto
        have one: "?res = (?p @ fst (?scan e (flat its2) True ?s1),
                          snd (?scan e (flat its2) True ?s1))"
          using ne n0 its Ch dr1
          by (subst replace_scan.simps) (simp add: case_prod_beta m_def)
        have g1: "grows s ?s1"
          using sanitize_match_grows [OF less.prems(1) assms(2)] .
        have "length its = length m + length its2"
          using arg_cong [OF its2, of length] by simp
        then have shorter: "length its2 < length its"
          using m(1) by simp
        have "tokens its = tokens its2"
          using arg_cong [OF its2, of tokens] by simp
        moreover have "fst ` set (mappings s) \<subseteq> fst ` set (mappings ?s1)"
          using g1 by (simp add: grows_def image_mono)
        ultimately have t2: "tokens its2 \<subseteq> fst ` set (mappings ?s1)"
          using less.prems(2) by blast
        have "\<exists>its'. fst (?scan e (flat its2) True ?s1) = flat its'
           \<and> full M its' = full M its2
           \<and> tokens its' \<subseteq> fst ` set (mappings (snd (?scan e (flat its2) True ?s1)))"
          using less.hyps [OF shorter _ t2, of e True] g1 less.prems(3) one
          by (simp add: grows_def)
        then obtain its' where i': "fst (?scan e (flat its2) True ?s1) = flat its'"
            "full M its' = full M its2"
            "tokens its' \<subseteq> fst ` set (mappings (snd (?scan e (flat its2) True ?s1)))"
          by blast
        have "(?p, m) \<in> set (mappings ?s1)"
          using sanitize_match_entry [of pfx m s ?p ?s1] by simp
        moreover have "grows ?s1 (snd (?scan e (flat its2) True ?s1))"
          using scan_grows [OF _ assms(2)] g1 by (simp add: grows_def)
        ultimately have inres: "(?p, m) \<in> set (mappings (snd ?res))"
          using one by (auto simp: grows_def)
        then have "(?p, m) \<in> set M"
          using less.prems(3) by blast
        then have mo: "map_of M ?p = Some m"
          using assms(3) by (rule map_of_is_SomeI [rotated])
        have fu: "full M its = m @ full M its2"
          using arg_cong [OF its2, of "full M"] by simp
        have "?p \<in> fst ` set (mappings (snd ?res))"
          using inres by force
        then show ?thesis
          using i' one mo fu by (intro exI [of _ "Ph ?p # its'"]) simp
      qed
    qed
  qed
qed

section \<open>Sanitize and Restore\<close>

lemma filters_grows:
  "san_inv s \<Longrightarrow> set fs \<subseteq> set defaultFilters \<Longrightarrow> grows s (snd (sanitize_filters fs t s))"
proof (induction fs arbitrary: t s)
  case Nil
  then show ?case by (simp add: grows_refl)
next
  case (Cons f fs)
  let ?r1 = "ReplaceAllStringFunc (f_pattern f) t (sanitize_match (f_prefix f)) s"
  have "f_prefix f \<in> set prefixes"
    using Cons.prems(2) by (simp add: prefixes_def)
  then have g1: "grows s (snd ?r1)"
    using scan_grows [OF Cons.prems(1)] by (simp add: ReplaceAllStringFunc_def)
  then have "grows (snd ?r1) (snd (sanitize_filters fs (fst ?r1) (snd ?r1)))"
    using Cons.IH [of "snd ?r1" "fst ?r1"] Cons.prems(2) by (simp add: grows_def)
  then have "grows s (snd (sanitize_filters fs (fst ?r1) (snd ?r1)))"
    using g1 grows_trans by blast
  then show ?case
    by (simp add: case_prod_beta)
qed

lemma inv_cleared: "san_inv s \<Longrightarrow> san_inv (s\<lparr>mappings := [], counter := (\<lambda>k. 0)\<rparr>)"
  by (simp add: san_inv_def)

lemma Sanitize_inv: "san_inv s \<Longrightarrow> san_inv (snd (Sanitize s text))"
proof -
  assume i: "san_inv s"
  let ?s1 = "if maxPIIMappings \<le> length (mappings s)
             then s\<lparr>mappings := [], counter := (\<lambda>k. 0)\<rparr> else s"
  have i1: "san_inv ?s1"
    using i inv_cleared by simp
  then have "set (filters ?s1) \<subseteq> set defaultFilters"
    by (simp add: san_inv_def)
  from filters_grows [OF i1 this] have "san_inv (snd (sanitize_filters (filters ?s1) text ?s1))"
    by (simp add: grows_def)
  then show ?thesis
    using i by (simp add: Sanitize_def Let_def)
qed

lemma Sanitize_enabled: "san_inv s \<Longrightarrow> enabled (snd (Sanitize s x)) = enabled s"
proof -
  assume i: "san_inv s"
  let ?s1 = "if maxPIIMappings \<le> length (mappings s)
             then s\<lparr>mappings := [], counter := (\<lambda>k. 0)\<rparr> else s"
  have i1: "san_inv ?s1"
    using i inv_cleared by simp
  then have "set (filters ?s1) \<subseteq> set defaultFilters"
    by (simp add: san_inv_def)
  from filters_grows [OF i1 this]
  have "enabled (snd (sanitize_filters (filters ?s1) x ?s1)) = enabled ?s1"
    by (simp add: grows_def)
  then show ?thesis
    by (simp add: Sanitize_def Let_def)
qed

lemma reachable_inv: "reachable s \<Longrightarrow> san_inv s"
proof (induction rule: reachable.induct)
  case (reach_New c)
  show ?case
    by (auto simp: san_inv_def NewSanitizer_def)
next
  case (reach_Sanitize s x)
  then show ?case by (simp add: Sanitize_inv)
next
  case (reach_Reset s)
  then show ?case by (simp add: san_inv_def Reset_def)
next
  case (reach_match s f m)
  then have "f_prefix f \<in> set prefixes"
    by (auto simp: san_inv_def prefixes_def)
  from sanitize_match_grows [OF reach_match.IH this] show ?case
    by (simp add: grows_def)
qed

lemma filters_items:
  assumes "distinct (map fst M)" and "\<forall>k \<in> fst ` set M. good_key k"
  shows "set fs \<subseteq> set defaultFilters \<Longrightarrow> san_inv s \<Longrightarrow> tokens its \<subseteq> fst ` set (mappings s) \<Longrightarrow>
         set (mappings (snd (sanitize_filters fs (flat its) s))) \<subseteq> set M \<Longrightarrow>
         \<exists>its'. fst (sanitize_filters fs (flat its) s) = flat its'
           \<and> full M its' = full M its
           \<and> tokens its' \<subseteq> fst ` set (mappings (snd (sanitize_filters fs (flat its) s)))"
proof (induction fs arbitrary: its s)
  case Nil
  then show ?case by auto
next
  case (Cons f fs)
  let ?r1 = "replace_scan (f_pattern f) (sanitize_match (f_prefix f)) None (flat its) False s"
  let ?res = "sanitize_filters (f # fs) (flat its) s"
  have res: "?res = sanitize_filters fs (fst ?r1) (snd ?r1)"
    by (simp add: ReplaceAllStringFunc_def case_prod_beta)
  have fd: "f \<in> set defaultFilters" and fsd: "set fs \<subseteq> set defaultFilters"
    using Cons.prems(1) by auto
  have pf: "f_prefix f \<in> set prefixes"
    using fd by (simp add: prefixes_def)
  have safe: "pii_safe (f_pattern f)"
    using fd default_patterns_safe by blast
  have g1: "grows s (snd ?r1)"
    using scan_grows [OF Cons.prems(2) pf] .
  then have i1: "san_inv (snd ?r1)"
    by (simp add: grows_def)
  have "grows (snd ?r1) (snd ?res)"
    unfolding res using filters_grows [OF i1 fsd] .
  then have m1: "set (mappings (snd ?r1)) \<subseteq> set M"
    using Cons.prems(4) by (auto simp: grows_def)
  from scan_items [OF safe pf assms Cons.prems(2,3) m1]
  obtain its1 where its1: "fst ?r1 = flat its1" "full M its1 = full M its"
      "tokens its1 \<subseteq> fst ` set (mappings (snd ?r1))"
    by blast
  have "set (mappings (snd (sanitize_filters fs (flat its1) (snd ?r1)))) \<subseteq> set M"
    using Cons.prems(4) res its1(1) by simp
  from Cons.IH [OF fsd i1 its1(3) this]
  obtain its' where "fst (sanitize_filters fs (flat its1) (snd ?r1)) = flat its'"
      "full M its' = full M its1"
      "tokens its' \<subseteq> fst ` set (mappings (snd (sanitize_filters fs (flat its1) (snd ?r1))))"
    by blast
  then show ?case
    unfolding res using its1 by (intro exI [of _ its']) simp
qed

lemma keys_good:
  assumes "san_inv s" and "length (mappings s) \<le> maxPIIMappings"
  shows "\<forall>k \<in> fst ` set (mappings s). good_key k"
proof
  fix k
  assume "k \<in> fst ` set (mappings s)"
  then obtain orig where "(k, orig) \<in> set (mappings s)"
    by auto
  then obtain pfx n where p: "pfx \<in> set prefixes" "n \<le> counter s pfx" "k = placeholder pfx n"
    using assms(1) by (fastforce simp: san_inv_def)
  have "counter s pfx \<le> length (mappings s)"
    using assms(1) by (simp add: san_inv_def)
  then have "n < 10000"
    using p(2) assms(2) by (simp add: maxPIIMappings_def)
  then show "good_key k"
    using placeholder_good p by simp
qed

lemma Sanitize_items:
  assumes "san_inv s" and "length (mappings (snd (Sanitize s x))) \<le> maxPIIMappings"
  shows "\<exists>its. fst (Sanitize s x) = flat its
           \<and> full (mappings (snd (Sanitize s x))) its = x
           \<and> tokens its \<subseteq> fst ` set (mappings (snd (Sanitize s x)))"
proof (cases "\<not> enabled s \<or> length (filters s) = 0")
  case True
  then show ?thesis
    by (intro exI [of _ "map Ch x"]) (simp add: Sanitize_def)
next
  case False
  let ?s1 = "if maxPIIMappings \<le> length (mappings s)
             then s\<lparr>mappings := [], counter := (\<lambda>k. 0)\<rparr> else s"
  let ?M = "mappings (snd (Sanitize s x))"
  have S: "Sanitize s x = sanitize_filters (filters ?s1) (flat (map Ch x)) ?s1"
    using False by (simp add: Sanitize_def Let_def)
  have i1: "san_inv ?s1"
    using assms(1) inv_cleared by simp
  have i': "san_inv (snd (Sanitize s x))"
    using assms(1) by (rule Sanitize_inv)
  have d: "distinct (map fst ?M)"
    using i' by (simp add: san_inv_def)
  have g: "\<forall>k \<in> fst ` set ?M. good_key k"
    using keys_good [OF i' assms(2)] .
  have f1: "set (filters ?s1) \<subseteq> set defaultFilters"
    using i1 by (simp add: san_inv_def)
  have t1: "tokens (map Ch x) \<subseteq> fst ` set (mappings ?s1)"
    by simp
  have m1: "set (mappings (snd (sanitize_filters (filters ?s1) (flat (map Ch x)) ?s1))) \<subseteq> set ?M"
    using S by simp
  from filters_items [OF d g f1 i1 t1 m1] show ?thesis
    unfolding S [symmetric] by simp
qed

text \<open>
  C5 as the specification states it fails: a text that itself contains the characters
  of a placeholder is not given back.  With the e-mail filter on, on a new sanitizer, the
  input has one literal; its first nine bytes spell the placeholder that the literal
  gets, and \<open>Restore\<close> replaces them too.
\<close>

theorem roundtrip_counterexample:
  "fst (Sanitize (NewSanitizer email_only) ''[EMAIL_1] a@b.com'') = ''[EMAIL_1] [EMAIL_1]''
   \<and> mappings (snd (Sanitize (NewSanitizer email_only) ''[EMAIL_1] a@b.com''))
       = [(''[EMAIL_1]'', ''a@b.com'')]
   \<and> Restore (\<lambda>m. m) (snd (Sanitize (NewSanitizer email_only) ''[EMAIL_1] a@b.com''))
        (fst (Sanitize (NewSanitizer email_only) ''[EMAIL_1] a@b.com''))
       = ''a@b.com a@b.com''
   \<and> ''a@b.com a@b.com'' \<noteq> ''[EMAIL_1] a@b.com''"
  by code_simp

lemma Sanitize_keeps:
  assumes "san_inv s" and "length (mappings s) < maxPIIMappings"
  shows "set (mappings s) \<subseteq> set (mappings (snd (Sanitize s x)))"
proof (cases "\<not> enabled s \<or> length (filters s) = 0")
  case True
  then show ?thesis
    by (auto simp: Sanitize_def)
next
  case False
  have "set (filters s) \<subseteq> set defaultFilters"
    using assms(1) by (simp add: san_inv_def)
  from filters_grows [OF assms(1) this, of x] show ?thesis
    using False assms(2) by (simp add: Sanitize_def Let_def grows_def)
qed

text \<open>
  C5, amended.  Let the sanitizer be in a state it can reach, let \<open>Sanitize\<close> turn \<open>x\<close>
  into \<open>y\<close>, and let the map hold at most 1,000 entries afterwards.  If no placeholder of
  the map occurs in \<open>x\<close> itself, then \<open>Restore\<close> turns \<open>y\<close> back into \<open>x\<close>, in
  whatever order it visits the entries of the map.  Placeholders are reused: after the
  call no literal has two placeholders in the map and no placeholder two literals; the
  entries the map had before the call are still there when the map was below its
  capacity (at capacity \<open>Sanitize\<close> clears it first); and in every state the sanitizer
  can reach, within a call or between calls, the replacement function that \<open>Sanitize\<close>
  applies to each match returns, for a literal that is in the map, the placeholder the
  map holds for it, and leaves the map and the counters as they are.
\<close>

theorem sanitize_restore_roundtrip:
  assumes "reachable s"
      and "Sanitize s x = (y, s')"
      and "length (mappings s') \<le> maxPIIMappings"
      and "\<forall>(k, orig) \<in> set (mappings s'). \<not> sublist k x"
      and "mset (visit (mappings s')) = mset (mappings s')"
  shows "Restore visit s' y = x
         \<and> distinct (map snd (mappings s')) \<and> distinct (map fst (mappings s'))
         \<and> (length (mappings s) < maxPIIMappings \<longrightarrow> set (mappings s) \<subseteq> set (mappings s'))
         \<and> (\<forall>p m pfx. (p, m) \<in> set (mappings s) \<longrightarrow> sanitize_match pfx m s = (p, s))"
proof -
  have i: "san_inv s"
    using assms(1) by (rule reachable_inv)
  have hit: "\<forall>p m pfx. (p, m) \<in> set (mappings s) \<longrightarrow> sanitize_match pfx m s = (p, s)"
    using sanitize_match_hit [OF i] by blast
  have y: "y = fst (Sanitize s x)" and s': "s' = snd (Sanitize s x)"
    using assms(2) by simp_all
  have i': "san_inv s'"
    unfolding s' using i by (rule Sanitize_inv)
  have d: "distinct (map fst (mappings s'))" and dv: "distinct (map snd (mappings s'))"
    using i' by (simp_all add: san_inv_def)
  have keep: "length (mappings s) < maxPIIMappings \<longrightarrow> set (mappings s) \<subseteq> set (mappings s')"
    unfolding s' using Sanitize_keeps [OF i] by blast
  obtain its where its: "y = flat its" "full (mappings s') its = x"
      "tokens its \<subseteq> fst ` set (mappings s')"
    using Sanitize_items [OF i] assms(3) unfolding y s' by blast
  have "Restore visit s' y = x"
  proof (cases "enabled s'")
    case False
    then have "\<not> enabled s"
      using Sanitize_enabled [OF i, of x] unfolding s' by simp
    then have "y = x"
      unfolding y by (simp add: Sanitize_def)
    then show ?thesis
      using False by (simp add: Restore_def)
  next
    case True
    let ?M = "mappings s'"
    let ?es = "visit ?M"
    have se: "set ?es = set ?M"
      using assms(5) by (rule mset_eq_setD)
    have g: "\<forall>k \<in> fst ` set ?M. good_key k"
      using keys_good [OF i' assms(3)] .
    have e: "\<forall>(k, orig) \<in> set ?es. wf_key k \<and> map_of ?M k = Some orig
               \<and> \<not> sublist k (full ?M its)"
      using se d g assms(4) its(2) good_key_wf by (auto intro: map_of_is_SomeI)
    have w: "\<forall>k \<in> tokens its. wf_key k"
      using its(3) g good_key_wf by blast
    from restore_fold [OF e w] obtain its' where r:
      "foldl (\<lambda>result (placeholder, original). replaceAll result placeholder original)
          (flat its) ?es = flat its'"
      "full ?M its' = full ?M its" "tokens its' = tokens its - fst ` set ?es"
      by blast
    have "tokens its' = {}"
      using r(3) its(3) se by auto
    from flat_no_tokens [OF this, of ?M] have "flat its' = x"
      using r(2) its(2) by simp
    then show ?thesis
      using True r(1) its(1) by (simp add: Restore_def)
  qed
  then show ?thesis
    using hit d dv keep by blast
qed

theorem sanitize_restore_roundtrip_witness:
  "reachable (snd (Sanitize (NewSanitizer email_only) ''a@b.com''))
   \<and> mappings (snd (Sanitize (NewSanitizer email_only) ''a@b.com'')) = [(''[EMAIL_1]'', ''a@b.com'')]
   \<and> Sanitize (snd (Sanitize (NewSanitizer email_only) ''a@b.com''))
        ''write to c@d.org or a@b.com, then a@b.com''
       = (''write to [EMAIL_2] or [EMAIL_1], then [EMAIL_1]'',
          snd (Sanitize (snd (Sanitize (NewSanitizer email_only) ''a@b.com''))
                 ''write to c@d.org or a@b.com, then a@b.com''))
   \<and> mappings (snd (Sanitize (snd (Sanitize (NewSanitizer email_only) ''a@b.com''))
                 ''write to c@d.org or a@b.com, then a@b.com''))
       = [(''[EMAIL_1]'', ''a@b.com''), (''[EMAIL_2]'', ''c@d.org'')]
   \<and> \<not> sublist ''[EMAIL_1]'' ''write to c@d.org or a@b.com, then a@b.com''
   \<and> \<not> sublist ''[EMAIL_2]'' ''write to c@d.org or a@b.com, then a@b.com''
   \<and> Restore rev (snd (Sanitize (snd (Sanitize (NewSanitizer email_only) ''a@b.com''))
                 ''write to c@d.org or a@b.com, then a@b.com''))
        ''write to [EMAIL_2] or [EMAIL_1], then [EMAIL_1]''
       = ''write to c@d.org or a@b.com, then a@b.com''
   \<and> sanitize_match ''EMAIL'' ''a@b.com'' (snd (Sanitize (NewSanitizer email_only) ''a@b.com''))
       = (''[EMAIL_1]'', snd (Sanitize (NewSanitizer email_only) ''a@b.com''))"
proof -
  let ?s = "snd (Sanitize (NewSanitizer email_only) ''a@b.com'')"
  let ?x = "''write to c@d.org or a@b.com, then a@b.com''"
  let ?y = "''write to [EMAIL_2] or [EMAIL_1], then [EMAIL_1]''"
  have h1: "reachable ?s"
    by (rule reach_Sanitize [OF reach_New])
  have m0: "mappings ?s = [(''[EMAIL_1]'', ''a@b.com'')]"
    by code_simp
  have f: "fst (Sanitize ?s ?x) = ?y"
    by code_simp
  have h2: "Sanitize ?s ?x = (?y, snd (Sanitize ?s ?x))"
    using f by (simp add: prod_eq_iff)
  have mp: "mappings (snd (Sanitize ?s ?x))
              = [(''[EMAIL_1]'', ''a@b.com''), (''[EMAIL_2]'', ''c@d.org'')]"
    by code_simp
  have n1: "\<not> sublist ''[EMAIL_1]'' ?x"
    by code_simp
  have n2: "\<not> sublist ''[EMAIL_2]'' ?x"
    by code_simp
  have h3: "length (mappings (snd (Sanitize ?s ?x))) \<le> maxPIIMappings"
    by (simp add: mp maxPIIMappings_def)
  have h4: "\<forall>(k, orig) \<in> set (mappings (snd (Sanitize ?s ?x))). \<not> sublist k ?x"
    using n1 n2 by (simp add: mp)
  have h5: "mset (rev (mappings (snd (Sanitize ?s ?x)))) = mset (mappings (snd (Sanitize ?s ?x)))"
    by simp
  have h6: "(''[EMAIL_1]'', ''a@b.com'') \<in> set (mappings ?s)"
    by (simp add: m0)
  show ?thesis
    using h1 h2 m0 mp n1 n2 h6
      sanitize_restore_roundtrip [of ?s ?x _ _ rev, OF h1 h2 h3 h4 h5] by blast
qed

end
